theory Spec2Isabelle
  imports Main "HOL-Library.Sublist" "HOL-Library.Char_ord" "HOL-Library.List_Lexorder"
    "HOL-Library.Multiset"
begin

section \<open>JavaScript string operations used by the gallery\<close>

text \<open>
  Strings are lists of characters. The operations below are the ones the source calls:
  \<^verbatim>\<open>String.prototype.includes\<close>, \<^verbatim>\<open>String.prototype.replace\<close> with a string
  pattern (first occurrence only), and \<^verbatim>\<open>replace\<close>/\<^verbatim>\<open>test\<close> with the three
  pre-compiled regular expressions of \<^verbatim>\<open>IconModal.tsx\<close>, which all have the shape
  \<^verbatim>\<open>NAME="[^"]*"\<close>. Every search is by position, leftmost first, and a replacement
  text is expanded as JavaScript does (\<^verbatim>\<open>$$\<close>, \<^verbatim>\<open>$&\<close>, the text before and the
  text after the match); none of the patterns has a capture group, so a dollar sign
  followed by a digit stays as it is.
\<close>

fun includes_str :: "string \<Rightarrow> string \<Rightarrow> bool" where
  "includes_str [] pat = (pat = [])"
| "includes_str (x # xs) pat = (prefix pat (x # xs) \<or> includes_str xs pat)"

fun split_first :: "string \<Rightarrow> string \<Rightarrow> (string \<times> string) option" where
  "split_first [] pat = (if pat = [] then Some ([], []) else None)"
| "split_first (x # xs) pat =
     (if prefix pat (x # xs) then Some ([], drop (length pat) (x # xs))
      else map_option (\<lambda>(b, a). (x # b, a)) (split_first xs pat))"

fun get_substitution :: "string \<Rightarrow> string \<Rightarrow> string \<Rightarrow> string \<Rightarrow> string" where
  "get_substitution matched pre post [] = []"
| "get_substitution matched pre post [c] = [c]"
| "get_substitution matched pre post (c # d # r) =
     (if c = CHR ''$'' then
        (if d = CHR ''$'' then CHR ''$'' # get_substitution matched pre post r
         else if d = CHR ''&'' then matched @ get_substitution matched pre post r
         else if d = CHR 0x60 then pre @ get_substitution matched pre post r
         else if d = CHR 0x27 then post @ get_substitution matched pre post r
         else c # get_substitution matched pre post (d # r))
      else c # get_substitution matched pre post (d # r))"

definition replace_str :: "string \<Rightarrow> string \<Rightarrow> string \<Rightarrow> string" where
  "replace_str s pat tmpl =
     (case split_first s pat of
        None \<Rightarrow> s
      | Some (b, a) \<Rightarrow> b @ get_substitution pat b a tmpl @ a)"

text \<open>
  The regular expression \<^verbatim>\<open>NAME="[^"]*"\<close> anchored at the head of a string:
  \<open>quoted_rest\<close> reads \<^verbatim>\<open>[^"]*"\<close> (the value and the closing quote),
  \<open>match_here\<close> the whole pattern. A regular expression of this shape is
  represented by its attribute name.
\<close>

fun quoted_rest :: "string \<Rightarrow> (string \<times> string) option" where
  "quoted_rest [] = None"
| "quoted_rest (x # xs) =
     (if x = CHR 0x22 then Some ([], xs)
      else map_option (\<lambda>(v, r). (x # v, r)) (quoted_rest xs))"

definition match_here :: "string \<Rightarrow> string \<Rightarrow> (string \<times> string) option" where
  "match_here nm s =
     (if prefix (nm @ [CHR ''='', CHR 0x22]) s then
        (case quoted_rest (drop (length nm + 2) s) of
           None \<Rightarrow> None
         | Some (v, r) \<Rightarrow> Some (nm @ [CHR ''='', CHR 0x22] @ v @ [CHR 0x22], r))
      else None)"

fun regex_exec :: "string \<Rightarrow> string \<Rightarrow> (string \<times> string \<times> string) option" where
  "regex_exec nm [] = None"
| "regex_exec nm (x # xs) =
     (case match_here nm (x # xs) of
        Some (m, r) \<Rightarrow> Some ([], m, r)
      | None \<Rightarrow> map_option (\<lambda>(b, m, r). (x # b, m, r)) (regex_exec nm xs))"

definition regex_test :: "string \<Rightarrow> string \<Rightarrow> bool" where
  "regex_test nm s = (regex_exec nm s \<noteq> None)"

definition replace_regex :: "string \<Rightarrow> string \<Rightarrow> string \<Rightarrow> string" where
  "replace_regex nm s tmpl =
     (case regex_exec nm s of
        None \<Rightarrow> s
      | Some (b, m, a) \<Rightarrow> b @ get_substitution m b a tmpl @ a)"

text \<open>
  A global regular expression replaces every match, scanning on from the end of the
  previous one; \<open>seen\<close> is the part of the input already passed, which the
  replacement text may refer to.
\<close>

function replace_all_from :: "string \<Rightarrow> string \<Rightarrow> string \<Rightarrow> string \<Rightarrow> string" where
  "replace_all_from nm tmpl seen s =
     (case regex_exec nm s of
        None \<Rightarrow> s
      | Some (b, m, a) \<Rightarrow>
          b @ get_substitution m (seen @ b) a tmpl @ replace_all_from nm tmpl (seen @ b @ m) a)"
  by pat_completeness auto
termination
proof (relation "measure (\<lambda>(nm, tmpl, seen, s). length s)")
  show "wf (measure (\<lambda>(nm, tmpl, seen, s). length s))"
    by simp
next
  fix nm tmpl seen :: string
  fix s x2 b y m a
  assume ex: "regex_exec nm s = Some x2" and x2: "(b, y) = x2" and y: "(m, a) = y"
  have q: "quoted_rest t = Some (v, r) \<Longrightarrow> length r < length t" for t v r
    by (induction t arbitrary: v) (auto split: if_splits)
  have h: "match_here nm t = Some (m', r) \<Longrightarrow> length r < length t" for t m' r
    using q by (fastforce simp: match_here_def split: if_splits option.splits)
  have "regex_exec nm t = Some (b', m', r) \<Longrightarrow> length r < length t" for t b' m' r
  proof (induction t arbitrary: b')
    case Nil
    then show ?case by simp
  next
    case (Cons c t)
    then show ?case
      using h [of "c # t"] by (fastforce split: option.splits)
  qed
  with ex x2 y show "((nm, tmpl, seen @ b @ m, a), nm, tmpl, seen, s)
      \<in> measure (\<lambda>(nm, tmpl, seen, s). length s)"
    by auto
qed

declare replace_all_from.simps [simp del]

definition replace_regex_all :: "string \<Rightarrow> string \<Rightarrow> string \<Rightarrow> string" where
  "replace_regex_all nm s tmpl = replace_all_from nm tmpl [] s"

text \<open>A number in a template literal: the decimal digits of a natural number.\<close>

definition digit_char :: "nat \<Rightarrow> char" where
  "digit_char d = ''0123456789'' ! d"

fun show_nat :: "nat \<Rightarrow> string" where
  "show_nat n = (if n < 10 then [digit_char n] else show_nat (n div 10) @ [digit_char (n mod 10)])"

declare show_nat.simps [simp del]

section \<open>The SVG attribute transformer (IconModal.tsx)\<close>

definition FILL_REGEX :: string where
  "FILL_REGEX = ''fill''"

definition WIDTH_REGEX :: string where
  "WIDTH_REGEX = ''width''"

definition HEIGHT_REGEX :: string where
  "HEIGHT_REGEX = ''height''"

definition handle_fill :: "string \<Rightarrow> string \<Rightarrow> string" where
  "handle_fill color s =
     (if includes_str s ''fill='' then
        replace_regex_all FILL_REGEX s (''fill=\"'' @ color @ ''\"'')
      else replace_str s ''<svg'' (''<svg fill=\"'' @ color @ ''\"''))"

definition handle_dimensions :: "nat \<Rightarrow> string \<Rightarrow> string" where
  "handle_dimensions sz s =
     (let hasWidth = regex_test WIDTH_REGEX s;
          hasHeight = regex_test HEIGHT_REGEX s;
          s1 = (if hasWidth
                then replace_regex WIDTH_REGEX s (''width=\"'' @ show_nat sz @ ''\"'') else s);
          s2 = (if hasHeight
                then replace_regex HEIGHT_REGEX s1 (''height=\"'' @ show_nat sz @ ''\"'') else s1)
      in if \<not> hasWidth \<and> \<not> hasHeight
         then replace_str s2 ''<svg''
                (''<svg width=\"'' @ show_nat sz @ ''\" height=\"'' @ show_nat sz @ ''\"'')
         else s2)"

definition svg :: "string \<Rightarrow> string \<Rightarrow> nat \<Rightarrow> string" where
  "svg markup color sz = handle_dimensions sz (handle_fill color markup)"


section \<open>Markup as texts and double-quoted values\<close>

text \<open>
  The transformer is pattern based and never parses the markup. To say what it does to
  attributes, markup is written as an alternation of texts and double-quoted values:
  \<open>render [(t\<^sub>1, v\<^sub>1), (t\<^sub>2, v\<^sub>2)] rest\<close> is the string
  \<^verbatim>\<open>t1"v1"t2"v2"rest\<close>. The markup is regular when no text contains a double quote (the
  cut is then the one given by the double quotes of the string) and no value contains a
  double quote, an equals sign or a less-than sign.
\<close>

fun render :: "(string \<times> string) list \<Rightarrow> string \<Rightarrow> string" where
  "render [] rest = rest"
| "render ((t, v) # segs) rest = t @ CHR 0x22 # v @ CHR 0x22 # render segs rest"

definition plain_value :: "string \<Rightarrow> bool" where
  "plain_value v \<longleftrightarrow> CHR 0x22 \<notin> set v \<and> CHR ''='' \<notin> set v \<and> CHR ''<'' \<notin> set v"

definition regular :: "(string \<times> string) list \<Rightarrow> string \<Rightarrow> bool" where
  "regular segs rest \<longleftrightarrow>
     (\<forall>(t, v) \<in> set segs. CHR 0x22 \<notin> set t \<and> plain_value v) \<and> CHR 0x22 \<notin> set rest"

definition attr_name :: "string \<Rightarrow> bool" where
  "attr_name nm \<longleftrightarrow> nm \<noteq> [] \<and> CHR 0x22 \<notin> set nm"

text \<open>
  A value is a value of the attribute \<open>nm\<close> when the text before it ends with \<open>nm\<close> and
  an equals sign: this is where the pattern \<^verbatim>\<open>NAME="[^"]*"\<close> matches, so an attribute
  whose name only ends with \<open>nm\<close> (\<^verbatim>\<open>stroke-width\<close> for \<^verbatim>\<open>width\<close>) counts as one.
  \<open>attr_values\<close> lists the values of the attribute in the order of the markup, and
  \<open>has_text\<close> says that one of the texts, or the rest, contains a string.
\<close>

definition has_attr :: "string \<Rightarrow> (string \<times> string) list \<Rightarrow> bool" where
  "has_attr nm segs \<longleftrightarrow> (\<exists>(t, v) \<in> set segs. suffix (nm @ ''='') t)"

definition attr_values :: "string \<Rightarrow> (string \<times> string) list \<Rightarrow> string list" where
  "attr_values nm segs = map snd (filter (\<lambda>(t, v). suffix (nm @ ''='') t) segs)"

definition has_text :: "string \<Rightarrow> (string \<times> string) list \<Rightarrow> string \<Rightarrow> bool" where
  "has_text p segs rest \<longleftrightarrow> (\<exists>(t, v) \<in> set segs. includes_str t p) \<or> includes_str rest p"

definition all_val :: "string \<Rightarrow> string \<Rightarrow> (string \<times> string) list \<Rightarrow> bool" where
  "all_val nm w segs \<longleftrightarrow> (\<forall>(t, v) \<in> set segs. suffix (nm @ ''='') t \<longrightarrow> v = w)"

text \<open>
  The three changes the transformer makes, on the list of texts and values: the value of
  the first attribute \<open>nm\<close> is set, the value of every attribute \<open>nm\<close> is set, or new
  attributes \<open>ins\<close> are put directly after the first \<^verbatim>\<open><svg\<close> (which is in a text or
  in the rest; nothing is put anywhere when there is none).
\<close>

fun set_first :: "string \<Rightarrow> string \<Rightarrow> (string \<times> string) list \<Rightarrow> (string \<times> string) list" where
  "set_first nm w [] = []"
| "set_first nm w ((t, v) # segs) =
     (if suffix (nm @ ''='') t then (t, w) # segs else (t, v) # set_first nm w segs)"

definition set_all :: "string \<Rightarrow> string \<Rightarrow> (string \<times> string) list \<Rightarrow> (string \<times> string) list" where
  "set_all nm w segs = map (\<lambda>(t, v). if suffix (nm @ ''='') t then (t, w) else (t, v)) segs"

fun glue :: "string \<Rightarrow> (string \<times> string) list \<Rightarrow> (string \<times> string) list" where
  "glue p [] = []"
| "glue p ((t, v) # ins) = (p @ t, v) # ins"

fun inject ::
  "(string \<times> string) list \<Rightarrow> (string \<times> string) list \<Rightarrow> string
     \<Rightarrow> (string \<times> string) list \<times> string" where
  "inject ins [] rest =
     (case split_first rest ''<svg'' of
        None \<Rightarrow> ([], rest)
      | Some (a, b) \<Rightarrow> (glue (a @ ''<svg'') ins, b))"
| "inject ins ((t, v) # segs) rest =
     (case split_first t ''<svg'' of
        Some (a, b) \<Rightarrow> (glue (a @ ''<svg'') ins @ (b, v) # segs, rest)
      | None \<Rightarrow> (case inject ins segs rest of (segs', rest') \<Rightarrow> ((t, v) # segs', rest')))"

text \<open>
  The transformer in these terms, to be compared with \<open>handle_fill\<close>,
  \<open>handle_dimensions\<close> and \<open>svg\<close> above. The fill step: when the markup contains
  \<^verbatim>\<open>fill=\<close> every fill value becomes the colour, otherwise \<^verbatim>\<open> fill="<color>"\<close> is put
  after the first \<^verbatim>\<open><svg\<close>. The width and height step: when there is a width or a
  height attribute, the first value of each one present becomes the size, otherwise
  \<^verbatim>\<open> width="<size>" height="<size>"\<close> is put after the first \<^verbatim>\<open><svg\<close>.
\<close>

definition fill_attrs ::
  "string \<Rightarrow> (string \<times> string) list \<Rightarrow> string \<Rightarrow> (string \<times> string) list \<times> string" where
  "fill_attrs c segs rest =
     (if has_text ''fill='' segs rest then (set_all ''fill'' c segs, rest)
      else inject [('' fill='', c)] segs rest)"

definition dimension_attrs ::
  "nat \<Rightarrow> (string \<times> string) list \<Rightarrow> string \<Rightarrow> (string \<times> string) list \<times> string" where
  "dimension_attrs n segs rest =
     (if has_attr ''width'' segs \<or> has_attr ''height'' segs
      then (set_first ''height'' (show_nat n) (set_first ''width'' (show_nat n) segs), rest)
      else inject [('' width='', show_nat n), ('' height='', show_nat n)] segs rest)"

definition svg_attrs ::
  "string \<Rightarrow> nat \<Rightarrow> (string \<times> string) list \<Rightarrow> string \<Rightarrow> (string \<times> string) list \<times> string" where
  "svg_attrs c n segs rest = (case fill_attrs c segs rest of (s, r) \<Rightarrow> dimension_attrs n s r)"

text \<open>
  Markup on which a step has nothing left to do: the fill step when the markup contains
  \<^verbatim>\<open>fill=\<close> and every fill value is the colour, or contains neither \<^verbatim>\<open>fill=\<close> nor
  \<^verbatim>\<open><svg\<close>; the width and height step when the first width and height values present
  are the size, or there is neither of them nor \<^verbatim>\<open><svg\<close>.
\<close>

definition fill_settled :: "string \<Rightarrow> (string \<times> string) list \<Rightarrow> string \<Rightarrow> bool" where
  "fill_settled c segs rest \<longleftrightarrow>
     (has_text ''fill='' segs rest \<and> all_val ''fill'' c segs)
     \<or> (\<not> has_text ''fill='' segs rest \<and> \<not> has_text ''<svg'' segs rest)"

definition dimensions_settled :: "string \<Rightarrow> (string \<times> string) list \<Rightarrow> string \<Rightarrow> bool" where
  "dimensions_settled w segs rest \<longleftrightarrow>
     ((has_attr ''width'' segs \<or> has_attr ''height'' segs)
        \<and> set_first ''width'' w segs = segs \<and> set_first ''height'' w segs = segs)
     \<or> (\<not> has_attr ''width'' segs \<and> \<not> has_attr ''height'' segs \<and> \<not> has_text ''<svg'' segs rest)"

section \<open>The gallery (App.tsx): data model\<close>

record Icon =
  name :: string
  category :: string
  style :: string
  path :: string
  content :: string
  collection :: string

text \<open>
  Fuse.js is an external library. An index built by \<^verbatim>\<open>new Fuse(data, FUSE_OPTIONS)\<close>
  is represented by what it answers: for each query, the list of matching items in the
  library's relevance order. The option \<^verbatim>\<open>limit\<close> of \<^verbatim>\<open>search\<close> keeps the first
  results of that list. The constructor is a parameter \<open>mk\<close> of the operations that
  build an index.
\<close>

type_synonym Fuse = "string \<Rightarrow> Icon list"

definition fuse_search :: "Fuse \<Rightarrow> string \<Rightarrow> nat \<Rightarrow> Icon list" where
  "fuse_search fuse query limit = take limit (fuse query)"

definition ICONS_PER_ROW :: nat where
  "ICONS_PER_ROW = 9"

definition ROW_HEIGHT :: nat where
  "ROW_HEIGHT = 120"

section \<open>Style index\<close>

text \<open>
  A JavaScript \<^verbatim>\<open>Set\<close> keeps its elements in insertion order, each once; the
  \<^verbatim>\<open>Map\<close> from a style to its icons is a partial function. \<^verbatim>\<open>Array.prototype.sort\<close>
  without a comparator orders strings by their code units, which is the lexicographic
  order on character lists.
\<close>

definition set_add :: "string list \<Rightarrow> string \<Rightarrow> string list" where
  "set_add styleSet x = (if x \<in> set styleSet then styleSet else styleSet @ [x])"

definition index_step ::
  "string list \<times> (string \<rightharpoonup> Icon list) \<Rightarrow> Icon \<Rightarrow> string list \<times> (string \<rightharpoonup> Icon list)" where
  "index_step acc icon =
     (case acc of (styleSet, index) \<Rightarrow>
        (set_add styleSet (style icon),
         index(style icon \<mapsto>
           (case index (style icon) of None \<Rightarrow> [] | Some arr \<Rightarrow> arr) @ [icon])))"

definition build_style_index :: "Icon list \<Rightarrow> string list \<times> (string \<rightharpoonup> Icon list)" where
  "build_style_index icons =
     (case foldl index_step ([], Map.empty) icons of
        (styleSet, index) \<Rightarrow> (''all'' # sort styleSet, index))"

definition styles :: "Icon list \<Rightarrow> string list" where
  "styles icons = fst (build_style_index icons)"

definition styleIndex :: "Icon list \<Rightarrow> (string \<rightharpoonup> Icon list)" where
  "styleIndex icons = snd (build_style_index icons)"

section \<open>Search and style filter\<close>

definition filtered ::
  "Icon list \<Rightarrow> string \<Rightarrow> string \<Rightarrow> (string \<rightharpoonup> Icon list) \<Rightarrow> Fuse option \<Rightarrow> Icon list" where
  "filtered icons debouncedSearch st index fuseRef =
     (if debouncedSearch \<noteq> [] \<and> fuseRef \<noteq> None then
        (let result = fuse_search (the fuseRef) debouncedSearch 500
         in if st \<noteq> ''all'' then filter (\<lambda>i. style i = st) result else result)
      else if st \<noteq> ''all'' then (case index st of None \<Rightarrow> [] | Some arr \<Rightarrow> arr)
      else icons)"

section \<open>Rows\<close>

text \<open>\<^verbatim>\<open>Array.prototype.slice(i, j)\<close> for \<open>0 \<le> i \<le> j\<close>: both ends are clamped to the length.\<close>

definition slice :: "'a list \<Rightarrow> nat \<Rightarrow> nat \<Rightarrow> 'a list" where
  "slice xs i j = take (j - i) (drop i xs)"

function rows_loop :: "Icon list \<Rightarrow> nat \<Rightarrow> Icon list list \<Rightarrow> Icon list list" where
  "rows_loop xs i result =
     (if i < length xs
      then rows_loop xs (i + ICONS_PER_ROW) (result @ [slice xs i (i + ICONS_PER_ROW)])
      else result)"
  by pat_completeness auto
termination
  by (relation "measure (\<lambda>(xs, i, result). length xs - i)") (auto simp: ICONS_PER_ROW_def)

declare rows_loop.simps [simp del]

definition rows :: "Icon list \<Rightarrow> Icon list list" where
  "rows xs = rows_loop xs 0 []"

section \<open>Loading a collection\<close>

text \<open>
  The state of the component that the collection effect reads and writes, the
  module-level cache, and the fetches in flight (each named by the collection it was
  requested for). An event is one callback run by the browser: the manifest arrives,
  the user picks a collection or a style, a collection's fetch resolves with its data,
  or the (debounced) search text changes. The search box and the style buttons are
  disabled while \<^verbatim>\<open>loading\<close> is set, so their events change nothing then
  (the clear button, which empties the search text, stays enabled).
\<close>

record App =
  st_icons :: "Icon list"
  st_collections :: "string list"
  st_collection :: string
  st_search :: string
  st_style :: string
  st_loading :: bool
  st_fuseRef :: "Fuse option"
  st_cache :: "string \<rightharpoonup> (Icon list \<times> Fuse)"
  st_pending :: "string list"

datatype event =
  ManifestLoaded "string list"
| CollectionChange string
| FetchResolved string "Icon list"
| StyleChange string
| SearchChange string

definition init :: App where
  "init = \<lparr>st_icons = [], st_collections = [], st_collection = [], st_search = [],
           st_style = ''all'', st_loading = True, st_fuseRef = None, st_cache = Map.empty, st_pending = []\<rparr>"

definition collection_effect :: "App \<Rightarrow> App" where
  "collection_effect s =
     (if st_collection s = [] then s
      else (case st_cache s (st_collection s) of
              Some (icons, fuse) \<Rightarrow>
                s\<lparr>st_icons := icons, st_fuseRef := Some fuse, st_loading := False\<rparr>
            | None \<Rightarrow>
                s\<lparr>st_loading := True, st_pending := st_pending s @ [st_collection s]\<rparr>))"

definition style_effect :: "App \<Rightarrow> App" where
  "style_effect s = s\<lparr>st_style := ''all''\<rparr>"

text \<open>Both effects depend on \<^verbatim>\<open>[collection]\<close>: they run when its value changes.\<close>

definition setCollection :: "string \<Rightarrow> App \<Rightarrow> App" where
  "setCollection c s =
     (if c = st_collection s then s
      else style_effect (collection_effect (s\<lparr>st_collection := c\<rparr>)))"

definition fetch_resolved :: "(Icon list \<Rightarrow> Fuse) \<Rightarrow> string \<Rightarrow> Icon list \<Rightarrow> App \<Rightarrow> App" where
  "fetch_resolved mk c data s =
     (if c \<in> set (st_pending s) then
        s\<lparr>st_cache := (st_cache s)(c \<mapsto> (data, mk data)),
          st_fuseRef := Some (mk data),
          st_icons := data,
          st_loading := False,
          st_pending := remove1 c (st_pending s)\<rparr>
      else s)"

fun step :: "(Icon list \<Rightarrow> Fuse) \<Rightarrow> App \<Rightarrow> event \<Rightarrow> App" where
  "step mk s (ManifestLoaded cs) =
     (let s' = s\<lparr>st_collections := cs\<rparr>
      in if length cs > 0 then setCollection (cs ! 0) s' else s')"
| "step mk s (CollectionChange c) = setCollection c s"
| "step mk s (FetchResolved c data) = fetch_resolved mk c data s"
| "step mk s (StyleChange x) = (if st_loading s then s else s\<lparr>st_style := x\<rparr>)"
| "step mk s (SearchChange q) =
     (if st_loading s \<and> q \<noteq> [] then s else s\<lparr>st_search := q\<rparr>)"

definition run :: "(Icon list \<Rightarrow> Fuse) \<Rightarrow> App \<Rightarrow> event list \<Rightarrow> App" where
  "run mk s es = foldl (step mk) s es"

text \<open>The filtered view of a state: the memo over icons, search text, style and style index.\<close>

definition view :: "App \<Rightarrow> Icon list" where
  "view s = filtered (st_icons s) (st_search s) (st_style s) (styleIndex (st_icons s)) (st_fuseRef s)"

text \<open>A sample icon, for concrete instances of the theorems below.\<close>

definition sample_icon :: "string \<Rightarrow> string \<Rightarrow> Icon" where
  "sample_icon n st = \<lparr>name = n, category = ''ui'', style = st, path = st @ ''/'' @ n,
     content = ''<svg/>'', collection = ''demo''\<rparr>"

definition sample_icons :: "Icon list" where
  "sample_icons = [sample_icon ''home'' ''outline'', sample_icon ''star'' ''all'',
                   sample_icon ''user'' ''outline'', sample_icon ''bell'' ''filled'']"

text \<open>
  A ranking that a fuzzy index may give, for concrete instances: the icons whose name is
  the query first, then the icons whose name differs from the query in one character.
\<close>

fun one_off :: "string \<Rightarrow> string \<Rightarrow> bool" where
  "one_off [] [] = False"
| "one_off (x # xs) (y # ys) = (if x = y then one_off xs ys else xs = ys)"
| "one_off xs ys = False"

definition sample_fuse :: "Icon list \<Rightarrow> Fuse" where
  "sample_fuse docs query =
     filter (\<lambda>i. name i = query) docs @ filter (\<lambda>i. one_off query (name i)) docs"

text \<open>
  What every reachable state satisfies about the search index: as long as no index is
  loaded the search text is empty and \<^verbatim>\<open>loading\<close> is set; a loaded index is the one
  built from the active icon list; and every cache entry pairs a list with its index.
\<close>

definition fuse_ok :: "(Icon list \<Rightarrow> Fuse) \<Rightarrow> App \<Rightarrow> bool" where
  "fuse_ok mk s =
     ((st_fuseRef s = None \<longrightarrow> st_search s = [] \<and> st_loading s)
      \<and> (st_fuseRef s \<noteq> None \<longrightarrow> st_fuseRef s = Some (mk (st_icons s)))
      \<and> (\<forall>c ic fu. st_cache s c = Some (ic, fu) \<longrightarrow> fu = mk ic))"



definition feather_icons :: "Icon list" where
  "feather_icons = [sample_icon ''home'' ''feather'']"

definition lucide_icons :: "Icon list" where
  "lucide_icons = [sample_icon ''star'' ''lucide'']"






definition fill_in_width_svg :: string where
  "fill_in_width_svg = ''<svg width=\"fill=\">''"

definition fills_markup :: "(string \<times> string) list" where
  "fills_markup = [(''<svg fill='', ''none''), (''><path fill='', ''red''), ('' d='', ''M2 2h8'')]"





section \<open>Rows: the partition of the filtered view\<close>

lemma rows_loop_concat: "concat (rows_loop xs i acc) = concat acc @ drop i xs"
proof (induction xs i acc rule: rows_loop.induct)
  case (1 xs i result)
  show ?case
  proof (cases "i < length xs")
    case True
    have "take ICONS_PER_ROW (drop i xs) @ drop (i + ICONS_PER_ROW) xs = drop i xs"
      by (metis add.commute append_take_drop_id drop_drop)
    with True 1 show ?thesis
      by (simp add: slice_def rows_loop.simps [of xs i])
  next
    case False
    then show ?thesis by (simp add: rows_loop.simps [of xs i])
  qed
qed

lemma ceil_step: "0 < (d::nat) \<Longrightarrow> (d + 8) div 9 = Suc ((d - 9 + 8) div 9)"
proof (cases "9 \<le> d")
  case True
  then have "d + 8 = (d - 9 + 8) + 9" by simp
  then have "(d + 8) div 9 = ((d - 9 + 8) + 9) div 9" by simp
  also have "\<dots> = Suc ((d - 9 + 8) div 9)" by (simp only: div_add_self2)
  finally show ?thesis .
next
  case False
  assume "0 < d"
  with False have "(d + 8) div 9 = 1" by simp
  with False show ?thesis by simp
qed

lemma rows_loop_length:
  "length (rows_loop xs i acc) = length acc + (length xs - i + 8) div 9"
proof (induction xs i acc rule: rows_loop.induct)
  case (1 xs i result)
  show ?case
  proof (cases "i < length xs")
    case True
    have a: "(length xs - i + 8) div 9 = Suc ((length xs - (i + 9) + 8) div 9)"
      using ceil_step [of "length xs - i"] True by (simp only: diff_diff_left zero_less_diff)
    have b: "rows_loop xs i result
        = rows_loop xs (i + ICONS_PER_ROW) (result @ [slice xs i (i + ICONS_PER_ROW)])"
      using True by (subst rows_loop.simps) simp
    have c: "length (rows_loop xs (i + ICONS_PER_ROW) (result @ [slice xs i (i + ICONS_PER_ROW)]))
       = length (result @ [slice xs i (i + ICONS_PER_ROW)])
         + (length xs - (i + ICONS_PER_ROW) + 8) div 9"
      using True by (rule 1)
    show ?thesis
      unfolding a b using c by (simp add: ICONS_PER_ROW_def)
  next
    case False
    then show ?thesis by (subst rows_loop.simps) simp
  qed
qed

lemma ceil_bounds: "(n::nat) \<le> ((n + 8) div 9) * 9" "((n + 8) div 9) * 9 < n + 9"
proof -
  have "(n + 8) div 9 * 9 + (n + 8) mod 9 = n + 8"
    by (rule div_mult_mod_eq)
  moreover have "(n + 8) mod 9 < 9"
    by simp
  ultimately show "n \<le> ((n + 8) div 9) * 9" "((n + 8) div 9) * 9 < n + 9"
    by linarith+
qed

lemma rows_loop_full:
  "\<forall>r \<in> set acc. length r = 9 \<Longrightarrow> \<forall>r \<in> set (butlast (rows_loop xs i acc)). length r = 9"
proof (induction xs i acc rule: rows_loop.induct)
  case (1 xs i result)
  show ?case
  proof (cases "i < length xs")
    case True
    note lt = this
    show ?thesis
    proof (cases "i + 9 \<le> length xs")
      case True
      then have "length (slice xs i (i + ICONS_PER_ROW)) = 9"
        by (simp add: slice_def ICONS_PER_ROW_def)
      with 1 lt show ?thesis by (simp add: rows_loop.simps [of xs i])
    next
      case False
      then have "rows_loop xs (i + ICONS_PER_ROW) (result @ [slice xs i (i + ICONS_PER_ROW)])
          = result @ [slice xs i (i + ICONS_PER_ROW)]"
        by (simp add: ICONS_PER_ROW_def rows_loop.simps [of xs "i + 9"])
      with 1(2) lt show ?thesis by (simp add: rows_loop.simps [of xs i])
    qed
  next
    case False
    with 1(2) show ?thesis by (auto simp: rows_loop.simps [of xs i] dest: in_set_butlastD)
  qed
qed

lemma rows_loop_nonempty:
  "\<forall>r \<in> set acc. r \<noteq> [] \<and> length r \<le> 9 \<Longrightarrow>
   \<forall>r \<in> set (rows_loop xs i acc). r \<noteq> [] \<and> length r \<le> 9"
proof (induction xs i acc rule: rows_loop.induct)
  case (1 xs i result)
  show ?case
  proof (cases "i < length xs")
    case True
    then have "slice xs i (i + ICONS_PER_ROW) \<noteq> []
        \<and> length (slice xs i (i + ICONS_PER_ROW)) \<le> 9"
      by (simp add: slice_def ICONS_PER_ROW_def)
    with 1 True show ?thesis by (simp add: rows_loop.simps [of xs i])
  next
    case False
    with 1(2) show ?thesis by (simp add: rows_loop.simps [of xs i])
  qed
qed

text \<open>
  Claim C5. With the row capacity \<open>ICONS_PER_ROW = 9\<close>, a filtered view of length \<open>L\<close>
  is cut into exactly \<open>ceil (L / 9)\<close> rows (the number \<open>n\<close> with \<open>L \<le> 9 n < L + 9\<close>);
  every row but possibly the last has exactly 9 icons, no row is empty or longer than 9,
  the rows concatenated in order are the filtered view again, and the empty view has no
  rows.
\<close>

theorem rows_partition:
  "length (rows xs) = (length xs + ICONS_PER_ROW - 1) div ICONS_PER_ROW
   \<and> length xs \<le> length (rows xs) * ICONS_PER_ROW
   \<and> length (rows xs) * ICONS_PER_ROW < length xs + ICONS_PER_ROW
   \<and> (\<forall>r \<in> set (butlast (rows xs)). length r = ICONS_PER_ROW)
   \<and> (\<forall>r \<in> set (rows xs). r \<noteq> [] \<and> length r \<le> ICONS_PER_ROW)
   \<and> concat (rows xs) = xs
   \<and> rows [] = []
   \<and> ICONS_PER_ROW = 9"
proof -
  have len: "length (rows xs) = (length xs + 8) div 9"
    by (simp add: rows_def rows_loop_length)
  have full: "\<forall>r \<in> set (butlast (rows xs)). length r = 9"
    unfolding rows_def by (rule rows_loop_full) simp
  have ne: "\<forall>r \<in> set (rows xs). r \<noteq> [] \<and> length r \<le> 9"
    unfolding rows_def by (rule rows_loop_nonempty) simp
  have cc: "concat (rows xs) = xs"
    by (simp add: rows_def rows_loop_concat)
  have e: "rows [] = []"
    by (simp add: rows_def rows_loop.simps [of "[]"])
  from len have b1: "length xs \<le> length (rows xs) * 9"
    and b2: "length (rows xs) * 9 < length xs + 9"
    by (simp_all only: ceil_bounds)
  from len full ne cc e b1 b2 show ?thesis
    by (simp add: ICONS_PER_ROW_def)
qed

text \<open>The example of the specification: 37 icons give 5 rows.\<close>

theorem rows_partition_witness:
  "length (rows (replicate 37 (sample_icon ''home'' ''outline''))) = 5
   \<and> concat (rows (replicate 37 (sample_icon ''home'' ''outline'')))
       = replicate 37 (sample_icon ''home'' ''outline'')
   \<and> length (rows (replicate 37 (sample_icon ''home'' ''outline''))) * 9 < 37 + 9"
  using rows_partition [of "replicate 37 (sample_icon ''home'' ''outline'')"]
  by (simp add: ICONS_PER_ROW_def)

section \<open>The style index\<close>

lemma index_step_pair:
  "index_step (ss, ix) a =
     (set_add ss (style a),
      ix(style a \<mapsto> (case ix (style a) of None \<Rightarrow> [] | Some arr \<Rightarrow> arr) @ [a]))"
  by (simp add: index_step_def)

lemma foldl_index_step_styles:
  "distinct ss \<Longrightarrow>
   distinct (fst (foldl index_step (ss, ix) L))
   \<and> set (fst (foldl index_step (ss, ix) L)) = set ss \<union> style ` set L"
proof (induction L arbitrary: ss ix)
  case Nil
  then show ?case by simp
next
  case (Cons a L)
  have "distinct (set_add ss (style a))"
    using Cons.prems by (simp add: set_add_def)
  from Cons.IH [OF this] show ?case
    by (auto simp: index_step_pair set_add_def)
qed

lemma foldl_index_step_index:
  "snd (foldl index_step (ss, ix) L) k =
     (if k \<in> style ` set L
      then Some ((case ix k of None \<Rightarrow> [] | Some arr \<Rightarrow> arr) @ filter (\<lambda>i. style i = k) L)
      else ix k)"
proof (induction L arbitrary: ss ix)
  case Nil
  then show ?case by simp
next
  case (Cons a L)
  have e: "style a \<notin> style ` set L \<Longrightarrow> [] = filter (\<lambda>i. style i = style a) L"
    by (rule sym) (force simp: filter_empty_conv image_iff)
  show ?case
    by (simp add: index_step_pair Cons.IH) (auto simp: e)
qed

lemma mset_concat_insert:
  "distinct ks \<Longrightarrow> f x \<in> set ks \<Longrightarrow>
   mset (concat (map (\<lambda>k. if f x = k then x # g k else g k) ks))
     = add_mset x (mset (concat (map g ks)))"
proof (induction ks)
  case Nil
  then show ?case by simp
next
  case (Cons k ks)
  show ?case
  proof (cases "f x = k")
    case True
    with Cons.prems have "f x \<notin> set ks" by auto
    then have "map (\<lambda>k. if f x = k then x # g k else g k) ks = map g ks"
      by (intro map_cong) auto
    then have "mset (concat (map (\<lambda>k. if f x = k then x # g k else g k) ks))
        = mset (concat (map g ks))"
      by (rule arg_cong)
    with True show ?thesis by simp
  next
    case False
    with Cons show ?thesis by simp
  qed
qed

lemma mset_concat_groups:
  "distinct ks \<Longrightarrow> f ` set L \<subseteq> set ks \<Longrightarrow>
   mset (concat (map (\<lambda>k. filter (\<lambda>i. f i = k) L) ks)) = mset L"
proof (induction L)
  case Nil
  then show ?case by (induction ks) auto
next
  case (Cons x L)
  then have "mset (concat (map (\<lambda>k. filter (\<lambda>i. f i = k) L) ks)) = mset L"
    by simp
  moreover have "mset (concat (map (\<lambda>k. if f x = k then x # filter (\<lambda>i. f i = k) L
                                          else filter (\<lambda>i. f i = k) L) ks))
      = add_mset x (mset (concat (map (\<lambda>k. filter (\<lambda>i. f i = k) L) ks)))"
    using Cons.prems by (intro mset_concat_insert) auto
  ultimately show ?case by simp
qed

lemma styles_eq:
  "styles L = ''all'' # sorted_list_of_set (style ` set L)"
proof -
  obtain ss ix where f: "foldl index_step ([], Map.empty) L = (ss, ix)"
    by (cases "foldl index_step ([], Map.empty) L")
  from foldl_index_step_styles [of "[]" Map.empty L] f
  have d: "distinct ss" and s: "set ss = style ` set L"
    by simp_all
  have "sort ss = sorted_list_of_set (set ss)"
    using d by (simp add: sorted_list_of_set_sort_remdups distinct_remdups_id)
  with s show ?thesis
    by (simp add: styles_def build_style_index_def f)
qed

lemma styleIndex_eq:
  "styleIndex L k = (if k \<in> style ` set L then Some (filter (\<lambda>i. style i = k) L) else None)"
proof -
  obtain ss ix where f: "foldl index_step ([], Map.empty) L = (ss, ix)"
    by (cases "foldl index_step ([], Map.empty) L")
  show ?thesis
    using foldl_index_step_index [of "[]" Map.empty L k] f
    by (simp add: styleIndex_def build_style_index_def)
qed

lemma styleIndex_group:
  "(case styleIndex L k of None \<Rightarrow> [] | Some arr \<Rightarrow> arr) = filter (\<lambda>i. style i = k) L"
proof (cases "k \<in> style ` set L")
  case True
  then show ?thesis by (simp add: styleIndex_eq)
next
  case False
  then have "filter (\<lambda>i. style i = k) L = []"
    by (force simp: filter_empty_conv image_iff)
  with False show ?thesis by (simp add: styleIndex_eq)
qed

text \<open>
  Claim C6. For every icon list \<open>L\<close> the styles are the synthetic \<open>''all''\<close> followed by
  the distinct style values of \<open>L\<close> in lexicographic order, and the index maps a key to
  exactly the icons of \<open>L\<close> with that style, in the order of \<open>L\<close> (and has no entry for
  any other key); the groups of all styles together hold each icon of \<open>L\<close> exactly once.
  The builder is a function of the list alone, so equal lists give equal results.
\<close>

theorem style_index_builder:
  "styles L = ''all'' # sorted_list_of_set (style ` set L)
   \<and> sorted (tl (styles L)) \<and> distinct (tl (styles L)) \<and> set (tl (styles L)) = style ` set L
   \<and> styleIndex L k = (if k \<in> style ` set L then Some (filter (\<lambda>i. style i = k) L) else None)
   \<and> mset (concat (map (\<lambda>k. case styleIndex L k of None \<Rightarrow> [] | Some arr \<Rightarrow> arr) (tl (styles L))))
       = mset L"
proof -
  have "mset (concat (map (\<lambda>k. filter (\<lambda>i. style i = k) L) (sorted_list_of_set (style ` set L))))
      = mset L"
    by (intro mset_concat_groups) simp_all
  then show ?thesis
    by (simp add: styles_eq styleIndex_eq [of L k] styleIndex_group)
qed

theorem style_index_builder_witness:
  "styles sample_icons = [''all'', ''all'', ''filled'', ''outline'']
   \<and> styleIndex sample_icons ''outline''
       = Some [sample_icon ''home'' ''outline'', sample_icon ''user'' ''outline'']
   \<and> styleIndex sample_icons ''duotone'' = None"
proof -
  have "styleIndex sample_icons ''outline''
       = Some [sample_icon ''home'' ''outline'', sample_icon ''user'' ''outline'']"
    using style_index_builder [of sample_icons "''outline''"]
    by (simp add: sample_icons_def sample_icon_def)
  moreover have "styleIndex sample_icons ''duotone'' = None"
    using style_index_builder [of sample_icons "''duotone''"]
    by (simp add: sample_icons_def sample_icon_def)
  moreover have "styles sample_icons = [''all'', ''all'', ''filled'', ''outline'']"
    by code_simp
  ultimately show ?thesis by simp
qed

section \<open>The filter: search and style\<close>

lemma count_list_distinct: "distinct xs \<Longrightarrow> x \<in> set xs \<Longrightarrow> count_list xs x = 1"
  by (induction xs) (auto simp: count_list_0_iff)

text \<open>
  Claim C10. When some icon of the list has the style \<open>''all''\<close>, the styles list holds
  \<open>''all''\<close> twice (the synthetic entry and the real one), the index has an entry under
  the key \<open>''all''\<close>, and the filter never reads that entry: replacing it by anything
  leaves the filtered view as it is, and with the style \<open>''all''\<close> and no query the view
  is the full icon list.
\<close>

theorem all_style_shadowed:
  "''all'' \<in> style ` set L \<Longrightarrow>
     count_list (styles L) ''all'' = 2
   \<and> styleIndex L ''all'' = Some (filter (\<lambda>i. style i = ''all'') L)
   \<and> filtered L q st ((styleIndex L)(''all'' := g)) fuseRef = filtered L q st (styleIndex L) fuseRef
   \<and> filtered L [] ''all'' (styleIndex L) fuseRef = L"
proof -
  assume a: "''all'' \<in> style ` set L"
  then have "count_list (sorted_list_of_set (style ` set L)) ''all'' = 1"
    by (intro count_list_distinct) simp_all
  then have c: "count_list (styles L) ''all'' = 2"
    by (simp add: styles_eq)
  from a have e: "styleIndex L ''all'' = Some (filter (\<lambda>i. style i = ''all'') L)"
    by (simp add: styleIndex_eq)
  have f: "filtered L q st ((styleIndex L)(''all'' := g)) fuseRef = filtered L q st (styleIndex L) fuseRef"
    by (simp add: filtered_def)
  have h: "filtered L [] ''all'' (styleIndex L) fuseRef = L"
    by (simp add: filtered_def)
  from c e f h show ?thesis by simp
qed

theorem all_style_shadowed_witness:
  "count_list (styles sample_icons) ''all'' = 2
   \<and> styleIndex sample_icons ''all'' = Some [sample_icon ''star'' ''all'']
   \<and> filtered sample_icons [] ''all'' (styleIndex sample_icons) None = sample_icons"
proof -
  have "''all'' \<in> style ` set sample_icons"
    by (simp add: sample_icons_def sample_icon_def)
  from all_style_shadowed [OF this, of "[]" "''all''" None None]
  show ?thesis
    by (simp add: sample_icons_def sample_icon_def)
qed

subsection \<open>Reachable states and the search index\<close>

lemma run_snoc: "run mk s (es @ [e]) = step mk (run mk s es) e"
  by (simp add: run_def)

lemma run_Nil: "run mk s [] = s"
  by (simp add: run_def)

lemma fuse_ok_setCollection: "fuse_ok mk s \<Longrightarrow> fuse_ok mk (setCollection c s)"
  by (auto simp: fuse_ok_def setCollection_def style_effect_def collection_effect_def
      split: option.splits)

lemma fuse_ok_step: "fuse_ok mk s \<Longrightarrow> fuse_ok mk (step mk s e)"
proof (cases e)
  case (ManifestLoaded cs)
  assume "fuse_ok mk s"
  then have "fuse_ok mk (s\<lparr>st_collections := cs\<rparr>)"
    by (simp add: fuse_ok_def)
  then show ?thesis
    using ManifestLoaded by (cases cs) (simp_all add: Let_def fuse_ok_setCollection)
next
  case (CollectionChange c)
  assume "fuse_ok mk s"
  then show ?thesis
    using CollectionChange by (simp add: fuse_ok_setCollection)
next
  case (FetchResolved c d)
  assume "fuse_ok mk s"
  then show ?thesis
    using FetchResolved by (auto simp: fuse_ok_def fetch_resolved_def)
next
  case (StyleChange x)
  assume "fuse_ok mk s"
  then show ?thesis
    using StyleChange by (auto simp: fuse_ok_def)
next
  case (SearchChange q)
  assume "fuse_ok mk s"
  then show ?thesis
    using SearchChange by (auto simp: fuse_ok_def)
qed

lemma fuse_ok_run: "fuse_ok mk (run mk init es)"
proof (induction es rule: rev_induct)
  case Nil
  show ?case by (simp add: run_Nil init_def fuse_ok_def)
next
  case (snoc e es)
  then show ?case by (simp add: run_snoc fuse_ok_step)
qed

lemma filtered_query:
  "q \<noteq> [] \<Longrightarrow>
   filtered icons q st index (Some fuse)
     = (if st = ''all'' then take 500 (fuse q)
        else filter (\<lambda>i. style i = st) (take 500 (fuse q)))"
  by (simp add: filtered_def fuse_search_def)

lemma filtered_no_query:
  "filtered icons [] st index fuseRef
     = (if st = ''all'' then icons else (case index st of None \<Rightarrow> [] | Some arr \<Rightarrow> arr))"
  by (simp add: filtered_def)

text \<open>
  Claim C4. The filtered view is a three-way branch. With a non-empty query and a loaded
  index it is the first 500 results of the index for the query, filtered to the style
  unless the style is \<open>''all''\<close>; with an empty query and a style other than \<open>''all''\<close>
  it is the index entry of the style (the icons of that style, in source order; empty
  when there is none); with an empty query and the style \<open>''all''\<close> it is the icon list.
  In every reachable state with a non-empty search text the index is loaded and is the
  one built from the active icon list, so the first branch is the one taken.
\<close>

theorem filtered_three_way:
  "(q \<noteq> [] \<longrightarrow>
      filtered icons q st index (Some fuse)
        = (if st = ''all'' then take 500 (fuse q)
           else filter (\<lambda>i. style i = st) (take 500 (fuse q)))
      \<and> length (filtered icons q st index (Some fuse)) \<le> 500)
   \<and> (st \<noteq> ''all'' \<longrightarrow>
        filtered icons [] st index fuseRef = (case index st of None \<Rightarrow> [] | Some arr \<Rightarrow> arr)
      \<and> filtered icons [] st (styleIndex icons) fuseRef = filter (\<lambda>i. style i = st) icons)
   \<and> filtered icons [] ''all'' index fuseRef = icons
   \<and> (st_search (run mk init es) \<noteq> [] \<longrightarrow>
        view (run mk init es)
          = filtered (st_icons (run mk init es)) (st_search (run mk init es))
              (st_style (run mk init es)) (styleIndex (st_icons (run mk init es)))
              (Some (mk (st_icons (run mk init es)))))"
proof -
  have l: "length (filter (\<lambda>i. style i = st) (take 500 (fuse q))) \<le> 500"
    by (rule order_trans [OF length_filter_le]) simp
  have r: "st_search (run mk init es) \<noteq> [] \<Longrightarrow>
      st_fuseRef (run mk init es) = Some (mk (st_icons (run mk init es)))"
    using fuse_ok_run [of mk es] by (auto simp: fuse_ok_def)
  show ?thesis
    using l r by (simp add: filtered_query filtered_no_query styleIndex_group view_def)
qed

theorem filtered_three_way_witness:
  "filtered sample_icons ''home'' ''outline'' (styleIndex sample_icons) (Some (sample_fuse sample_icons))
     = [sample_icon ''home'' ''outline'']
   \<and> filtered sample_icons [] ''outline'' (styleIndex sample_icons) None
       = [sample_icon ''home'' ''outline'', sample_icon ''user'' ''outline'']
   \<and> filtered sample_icons [] ''all'' (styleIndex sample_icons) None = sample_icons"
proof -
  note t = filtered_three_way [of "''home''" sample_icons "''outline''" "styleIndex sample_icons"
      "sample_fuse sample_icons" None sample_fuse "[]"]
  from t have a: "filtered sample_icons ''home'' ''outline'' (styleIndex sample_icons)
        (Some (sample_fuse sample_icons))
      = filter (\<lambda>i. style i = ''outline'') (take 500 (sample_fuse sample_icons ''home''))"
    by simp
  have "''outline'' \<noteq> ''all''"
    by simp
  with t have b: "filtered sample_icons [] ''outline'' (styleIndex sample_icons) None
      = filter (\<lambda>i. style i = ''outline'') sample_icons"
    by blast
  from t have c: "filtered sample_icons [] ''all'' (styleIndex sample_icons) None = sample_icons"
    by blast
  have a': "filter (\<lambda>i. style i = ''outline'') (take 500 (sample_fuse sample_icons ''home''))
      = [sample_icon ''home'' ''outline'']"
    by (simp add: sample_icons_def sample_icon_def sample_fuse_def)
  have b': "filter (\<lambda>i. style i = ''outline'') sample_icons
      = [sample_icon ''home'' ''outline'', sample_icon ''user'' ''outline'']"
    by (simp add: sample_icons_def sample_icon_def)
  from a b c a' b' show ?thesis by simp
qed








section \<open>Switching collections while a fetch is in flight\<close>

lemma switch_pending:
  assumes "A \<noteq> []" "B \<noteq> []" "A \<noteq> B" "st_collection s \<noteq> A"
    and "st_cache s A = None" "st_cache s B = None"
  shows "run mk s [CollectionChange A, CollectionChange B]
      = s\<lparr>st_collection := B, st_style := ''all'', st_loading := True,
           st_pending := st_pending s @ [A, B]\<rparr>"
  using assms
  by (simp add: run_def setCollection_def collection_effect_def style_effect_def)

text \<open>
  Claim C1, as amended. A resolved fetch is applied whatever the current selection is.
  After the user picks \<open>A\<close> and then \<open>B\<close> (both not cached, so both fetches are in
  flight), the selection is \<open>B\<close>, and the active icon list is the data of the fetch that
  resolves last: \<open>B\<close>'s when \<open>A\<close>'s fetch resolves first, \<open>A\<close>'s when \<open>B\<close>'s resolves
  first.
\<close>

theorem last_resolved_fetch_wins:
  assumes "A \<noteq> []" "B \<noteq> []" "A \<noteq> B" "st_collection s \<noteq> A"
    and "st_cache s A = None" "st_cache s B = None"
  shows "st_collection (run mk s [CollectionChange A, CollectionChange B,
            FetchResolved A dataA, FetchResolved B dataB]) = B
      \<and> st_icons (run mk s [CollectionChange A, CollectionChange B,
            FetchResolved A dataA, FetchResolved B dataB]) = dataB
      \<and> st_collection (run mk s [CollectionChange A, CollectionChange B,
            FetchResolved B dataB, FetchResolved A dataA]) = B
      \<and> st_icons (run mk s [CollectionChange A, CollectionChange B,
            FetchResolved B dataB, FetchResolved A dataA]) = dataA
      \<and> (c \<in> set (st_pending s') \<longrightarrow>
            st_icons (step mk s' (FetchResolved c d)) = d
          \<and> st_collection (step mk s' (FetchResolved c d)) = st_collection s')"
proof -
  have r: "run mk s (CollectionChange A # CollectionChange B # es)
      = run mk (run mk s [CollectionChange A, CollectionChange B]) es" for es
    by (simp add: run_def)
  show ?thesis
    unfolding r switch_pending [OF assms]
    using assms(3) by (simp add: run_def fetch_resolved_def)
qed

text \<open>
  Claim C1 as stated fails: the manifest selects \<open>feather\<close>, the user switches to
  \<open>lucide\<close>, the fetch of \<open>lucide\<close> resolves and then the slower fetch of \<open>feather\<close>;
  the selection is \<open>lucide\<close> and the active icons are those of \<open>feather\<close>.
\<close>

theorem stale_fetch_overwrites:
  "st_collection (run sample_fuse init
      [ManifestLoaded [''feather'', ''lucide''], CollectionChange ''lucide'',
       FetchResolved ''lucide'' lucide_icons, FetchResolved ''feather'' feather_icons]) = ''lucide''
   \<and> st_icons (run sample_fuse init
      [ManifestLoaded [''feather'', ''lucide''], CollectionChange ''lucide'',
       FetchResolved ''lucide'' lucide_icons, FetchResolved ''feather'' feather_icons]) = feather_icons
   \<and> feather_icons \<noteq> lucide_icons"
  by (simp add: run_def init_def setCollection_def collection_effect_def style_effect_def
      fetch_resolved_def feather_icons_def lucide_icons_def sample_icon_def)

theorem last_resolved_fetch_wins_witness:
  "st_collection (run sample_fuse init [CollectionChange ''feather'', CollectionChange ''lucide'',
      FetchResolved ''feather'' feather_icons, FetchResolved ''lucide'' lucide_icons]) = ''lucide''
   \<and> st_icons (run sample_fuse init [CollectionChange ''feather'', CollectionChange ''lucide'',
      FetchResolved ''feather'' feather_icons, FetchResolved ''lucide'' lucide_icons]) = lucide_icons
   \<and> st_icons (run sample_fuse init [CollectionChange ''feather'', CollectionChange ''lucide'',
      FetchResolved ''lucide'' lucide_icons, FetchResolved ''feather'' feather_icons]) = feather_icons"
proof -
  have "''feather'' \<noteq> []" "''lucide'' \<noteq> []" "''feather'' \<noteq> ''lucide''"
    "st_collection init \<noteq> ''feather''" "st_cache init ''feather'' = None"
    "st_cache init ''lucide'' = None"
    by (simp_all add: init_def)
  from last_resolved_fetch_wins [OF this, of sample_fuse feather_icons lucide_icons]
  show ?thesis by blast
qed

section \<open>The SVG transformer: searching and replacing\<close>

lemma quoted_rest_Some:
  "quoted_rest s = Some (v, r) \<longleftrightarrow> s = v @ CHR 0x22 # r \<and> CHR 0x22 \<notin> set v"
proof (induction s arbitrary: v)
  case Nil
  then show ?case by simp
next
  case (Cons x s)
  show ?case
  proof (cases "x = CHR 0x22")
    case True
    then show ?thesis by (cases v) auto
  next
    case False
    then show ?thesis
      using Cons.IH by (cases v) auto
  qed
qed

lemma quoted_rest_None: "quoted_rest s = None \<longleftrightarrow> CHR 0x22 \<notin> set s"
  by (induction s) auto

lemma match_here_Some:
  "match_here nm s = Some (m, r) \<longleftrightarrow>
     (\<exists>v. CHR 0x22 \<notin> set v \<and> m = nm @ ''=\"'' @ v @ ''\"'' \<and> s = m @ r)"
proof
  assume "match_here nm s = Some (m, r)"
  then obtain v where p: "prefix (nm @ ''=\"'') s"
    and q: "quoted_rest (drop (length nm + 2) s) = Some (v, r)"
    and m: "m = nm @ ''=\"'' @ v @ ''\"''"
    by (auto simp: match_here_def split: if_splits option.splits)
  from p obtain t where s: "s = (nm @ ''=\"'') @ t"
    by (auto simp: prefix_def)
  with q have "t = v @ CHR 0x22 # r \<and> CHR 0x22 \<notin> set v"
    by (simp add: quoted_rest_Some)
  with s m show "\<exists>v. CHR 0x22 \<notin> set v \<and> m = nm @ ''=\"'' @ v @ ''\"'' \<and> s = m @ r"
    by auto
next
  assume "\<exists>v. CHR 0x22 \<notin> set v \<and> m = nm @ ''=\"'' @ v @ ''\"'' \<and> s = m @ r"
  then obtain v where v: "CHR 0x22 \<notin> set v" and m: "m = nm @ ''=\"'' @ v @ ''\"''"
    and s: "s = m @ r"
    by blast
  have "quoted_rest (v @ CHR 0x22 # r) = Some (v, r)"
    using v by (simp add: quoted_rest_Some)
  then show "match_here nm s = Some (m, r)"
    by (simp add: match_here_def s m)
qed

lemma match_here_None:
  "match_here nm s = None \<longleftrightarrow>
     \<not> prefix (nm @ ''=\"'') s \<or> CHR 0x22 \<notin> set (drop (length nm + 2) s)"
  using quoted_rest_None [of "drop (length nm + 2) s"]
  by (auto simp: match_here_def split: option.splits)


lemma regex_exec_None_iff:
  "regex_exec nm s = None \<longleftrightarrow> (\<forall>k<length s. match_here nm (drop k s) = None)"
proof (induction s)
  case Nil
  then show ?case by simp
next
  case (Cons x s)
  have "(\<forall>k<length (x # s). match_here nm (drop k (x # s)) = None)
      \<longleftrightarrow> match_here nm (x # s) = None \<and> (\<forall>k<length s. match_here nm (drop k s) = None)"
    by (auto simp: All_less_Suc2)
  with Cons show ?case
    by (auto split: option.splits)
qed

lemma regex_exec_skip:
  "(\<forall>k<length b. match_here nm (drop k b @ rest) = None) \<Longrightarrow>
   regex_exec nm (b @ rest) = map_option (\<lambda>(b', m, r). (b @ b', m, r)) (regex_exec nm rest)"
proof (induction b)
  case Nil
  then show ?case by (simp add: option.map_ident case_prod_unfold)
next
  case (Cons x b)
  from Cons.prems have h: "match_here nm (x # b @ rest) = None"
    by (auto dest: spec [of _ 0])
  from Cons.prems have "\<forall>k<length b. match_here nm (drop k b @ rest) = None"
    by (auto dest: spec [of _ "Suc k" for k])
  from Cons.IH [OF this] h show ?case
    by (simp add: option.map_comp comp_def case_prod_unfold)
qed

lemma regex_exec_at:
  "(\<forall>k<length b. match_here nm (drop k b @ m @ r) = None) \<Longrightarrow>
   match_here nm (m @ r) = Some (m, r) \<Longrightarrow>
   regex_exec nm (b @ m @ r) = Some (b, m, r)"
proof -
  assume a: "\<forall>k<length b. match_here nm (drop k b @ m @ r) = None"
    and h: "match_here nm (m @ r) = Some (m, r)"
  from h have "m @ r \<noteq> []"
    by (auto simp: match_here_Some)
  then obtain x xs where c: "m @ r = x # xs"
    by (cases "m @ r") auto
  with h have "regex_exec nm (m @ r) = Some ([], m, r)"
    by simp
  with regex_exec_skip [OF a] show ?thesis by simp
qed


lemma get_substitution_plain:
  "CHR ''$'' \<notin> set t \<Longrightarrow> get_substitution m p q t = t"
  by (induction m p q t rule: get_substitution.induct) auto

lemma includes_str_iff: "includes_str s pat \<longleftrightarrow> (\<exists>a b. s = a @ pat @ b)"
proof (induction s)
  case Nil
  then show ?case by auto
next
  case (Cons x s)
  show ?case
  proof
    assume "includes_str (x # s) pat"
    then consider "prefix pat (x # s)" | "includes_str s pat"
      by auto
    then show "\<exists>a b. x # s = a @ pat @ b"
    proof cases
      case 1
      then obtain b where "x # s = pat @ b"
        by (auto simp: prefix_def)
      then have "x # s = [] @ pat @ b" by simp
      then show ?thesis by blast
    next
      case 2
      with Cons obtain a b where "s = a @ pat @ b"
        by blast
      then have "x # s = (x # a) @ pat @ b" by simp
      then show ?thesis by blast
    qed
  next
    assume "\<exists>a b. x # s = a @ pat @ b"
    then obtain a b where e: "x # s = a @ pat @ b"
      by blast
    show "includes_str (x # s) pat"
    proof (cases a)
      case Nil
      with e have "prefix pat (x # s)" by (simp add: prefix_def)
      then show ?thesis by simp
    next
      case (Cons y a')
      with e have "s = a' @ pat @ b" by simp
      with Cons.IH have "includes_str s pat" by blast
      then show ?thesis by simp
    qed
  qed
qed

lemma split_first_None: "split_first s pat = None \<longleftrightarrow> \<not> includes_str s pat"
  by (induction s) auto

lemma prefix_short: "length xs \<le> length ys \<Longrightarrow> prefix xs (ys @ zs) \<longleftrightarrow> prefix xs ys"
proof
  assume "length xs \<le> length ys" "prefix xs (ys @ zs)"
  moreover have "prefix ys (ys @ zs)" by simp
  ultimately show "prefix xs ys"
    using prefix_length_prefix [of xs "ys @ zs" ys] by blast
next
  assume "prefix xs ys"
  then show "prefix xs (ys @ zs)" by (rule prefix_prefix)
qed


lemma show_nat_digits: "set (show_nat n) \<subseteq> set ''0123456789''"
proof (induction n rule: show_nat.induct)
  case (1 n)
  have d: "k < 10 \<Longrightarrow> digit_char k \<in> set ''0123456789''" for k
    unfolding digit_char_def by (rule nth_mem) simp
  show ?case
  proof (cases "n < 10")
    case True
    then show ?thesis
      using d [of n] by (subst show_nat.simps) simp
  next
    case False
    then show ?thesis
      using 1 d [of "n mod 10"] by (subst show_nat.simps) simp
  qed
qed

lemma show_nat_plain:
  "CHR ''$'' \<notin> set (show_nat n)" "CHR 0x22 \<notin> set (show_nat n)"
  "CHR ''w'' \<notin> set (show_nat n)" "CHR ''h'' \<notin> set (show_nat n)"
  "CHR ''f'' \<notin> set (show_nat n)" "CHR ''='' \<notin> set (show_nat n)"
  "CHR ''<'' \<notin> set (show_nat n)"
  using show_nat_digits [of n] by auto

lemma match_here_hd: "nm \<noteq> [] \<Longrightarrow> x \<noteq> hd nm \<Longrightarrow> match_here nm (x # s) = None"
  by (cases nm) (auto simp: match_here_def)

lemma replace_regex_at:
  "regex_exec nm s = Some (b, m, r) \<Longrightarrow> CHR ''$'' \<notin> set tmpl \<Longrightarrow>
   replace_regex nm s tmpl = b @ tmpl @ r"
  by (simp add: replace_regex_def get_substitution_plain)

section \<open>The SVG transformer: fill\<close>

lemma includes_str_append_left: "includes_str a pat \<Longrightarrow> includes_str (a @ z) pat"
proof -
  assume "includes_str a pat"
  then obtain p q where "a = p @ pat @ q"
    by (auto simp: includes_str_iff)
  then have "a @ z = p @ pat @ (q @ z)" by simp
  then show ?thesis
    unfolding includes_str_iff by blast
qed

lemma includes_str_append_right: "includes_str z pat \<Longrightarrow> includes_str (a @ z) pat"
proof -
  assume "includes_str z pat"
  then obtain p q where "z = p @ pat @ q"
    by (auto simp: includes_str_iff)
  then have "a @ z = (a @ p) @ pat @ q" by simp
  then show ?thesis
    unfolding includes_str_iff by blast
qed

lemma prefix_barrier:
  assumes t: "t \<noteq> []" and u: "u \<noteq> []" and ht: "hd t \<notin> set (tl pat)"
  shows "prefix pat (u @ t @ z) \<longleftrightarrow> prefix pat u"
proof (cases "length pat \<le> length u")
  case True
  then show ?thesis by (rule prefix_short)
next
  case False
  have "\<not> prefix pat (u @ t @ z)"
  proof
    assume "prefix pat (u @ t @ z)"
    then obtain w where w: "u @ t @ z = pat @ w"
      by (auto simp: prefix_def)
    with False obtain p' where pp: "pat = u @ p'" and p': "p' \<noteq> []"
      by (auto simp: append_eq_append_conv2)
    with w have "t @ z = p' @ w" by simp
    with t p' have "hd p' = hd t"
      by (cases t; cases p') auto
    moreover from pp u p' have "hd p' \<in> set (tl pat)"
      by (cases u) auto
    ultimately show False using ht by simp
  qed
  moreover from False have "\<not> prefix pat u"
    by (auto dest: prefix_length_le)
  ultimately show ?thesis by simp
qed

lemma includes_barrier:
  assumes t: "t \<noteq> []" and p: "pat \<noteq> []"
    and ht: "hd t \<notin> set (tl pat)" and hp: "hd pat \<notin> set t"
  shows "includes_str (a @ t @ z) pat \<longleftrightarrow> includes_str a pat \<or> includes_str z pat"
proof -
  have base: "includes_str (t' @ z) pat \<longleftrightarrow> includes_str z pat" if "set t' \<subseteq> set t" for t'
    using that
  proof (induction t')
    case Nil
    then show ?case by simp
  next
    case (Cons y t')
    from Cons.prems hp have "y \<noteq> hd pat" by auto
    with p have "\<not> prefix pat (y # t' @ z)"
      by (cases pat) auto
    with Cons show ?case by simp
  qed
  have step: "prefix pat (u @ t @ z) \<longleftrightarrow> prefix pat u" if u: "u \<noteq> []" for u
    using t u ht by (rule prefix_barrier)
  show ?thesis
  proof (induction a)
    case Nil
    have "\<not> includes_str [] pat" using p by simp
    with base [of t] show ?case by simp
  next
    case (Cons x a)
    from step [of "x # a"] have "prefix pat (x # a @ t @ z) \<longleftrightarrow> prefix pat (x # a)"
      by simp
    with Cons show ?case by auto
  qed
qed










section \<open>The SVG transformer: markup without a root tag\<close>








section \<open>Regular markup: the regular expressions\<close>

text \<open>
  On regular markup a match of \<^verbatim>\<open>NAME="[^"]*"\<close> starts in a text, at the
  \<open>NAME=\<close> the text ends with, and covers exactly the value that follows.
\<close>

lemma prefix_upto_quote:
  "CHR 0x22 \<notin> set w \<Longrightarrow> CHR 0x22 \<notin> set p \<Longrightarrow>
   prefix (p @ [CHR 0x22]) (w @ CHR 0x22 # z) \<longleftrightarrow> p = w"
proof (induction p arbitrary: w)
  case Nil
  then show ?case by (cases w) auto
next
  case (Cons x p)
  then show ?case by (cases w) auto
qed

lemma match_here_quote_free: "CHR 0x22 \<notin> set s \<Longrightarrow> match_here nm s = None"
  by (auto simp: match_here_None dest: in_set_dropD)

lemma regex_exec_quote_free: "CHR 0x22 \<notin> set s \<Longrightarrow> regex_exec nm s = None"
proof -
  assume q: "CHR 0x22 \<notin> set s"
  have "match_here nm (drop k s) = None" for k
    using q by (intro match_here_quote_free) (auto dest: in_set_dropD)
  then show ?thesis
    by (simp add: regex_exec_None_iff)
qed

lemma match_in_text:
  assumes t: "CHR 0x22 \<notin> set u" and nm: "attr_name nm"
  shows "match_here nm (u @ CHR 0x22 # v @ CHR 0x22 # R) = None \<longleftrightarrow> u \<noteq> nm @ ''=''"
proof -
  have q: "CHR 0x22 \<notin> set (nm @ ''='')"
    using nm by (simp add: attr_name_def)
  have "prefix (nm @ ''=\"'') (u @ CHR 0x22 # v @ CHR 0x22 # R) \<longleftrightarrow> nm @ ''='' = u"
    using prefix_upto_quote [OF t q, of "v @ CHR 0x22 # R"] by simp
  moreover have "CHR 0x22 \<in> set (drop (length nm + 2) (u @ CHR 0x22 # v @ CHR 0x22 # R))"
    if "u = nm @ ''=''"
    unfolding that by simp
  ultimately show ?thesis
    unfolding match_here_None by blast
qed

lemma match_in_value:
  assumes v: "plain_value v" and nm: "attr_name nm"
  shows "match_here nm (CHR 0x22 # drop j v @ CHR 0x22 # R) = None"
    and "match_here nm (drop j v @ CHR 0x22 # R) = None"
proof -
  from nm have n: "nm \<noteq> []" and "CHR 0x22 \<notin> set nm"
    by (simp_all add: attr_name_def)
  then have h: "CHR 0x22 \<noteq> hd nm"
    by (cases nm) auto
  from n h show "match_here nm (CHR 0x22 # drop j v @ CHR 0x22 # R) = None"
    by (rule match_here_hd)
  have q: "CHR 0x22 \<notin> set (nm @ ''='')"
    using nm by (simp add: attr_name_def)
  have w: "CHR 0x22 \<notin> set (drop j v)" and e: "CHR ''='' \<notin> set (drop j v)"
    using v by (auto simp: plain_value_def dest: in_set_dropD)
  have "\<not> prefix (nm @ ''=\"'') (drop j v @ CHR 0x22 # R)"
  proof
    assume "prefix (nm @ ''=\"'') (drop j v @ CHR 0x22 # R)"
    then have "nm @ ''='' = drop j v"
      using prefix_upto_quote [OF w q, of R] by simp
    then have "CHR ''='' \<in> set (drop j v)"
      by (metis in_set_conv_decomp)
    with e show False by simp
  qed
  then show "match_here nm (drop j v @ CHR 0x22 # R) = None"
    by (simp add: match_here_None)
qed

lemma regex_exec_render_Cons:
  assumes t: "CHR 0x22 \<notin> set t" and v: "plain_value v" and nm: "attr_name nm"
  shows "regex_exec nm (render ((t, v) # segs) rest) =
     (if suffix (nm @ ''='') t
      then Some (take (length t - length (nm @ ''='')) t, nm @ ''=\"'' @ v @ ''\"'', render segs rest)
      else map_option (\<lambda>(b, m, r). (t @ CHR 0x22 # v @ CHR 0x22 # b, m, r))
             (regex_exec nm (render segs rest)))"
proof (cases "suffix (nm @ ''='') t")
  case True
  then obtain t0 where t0: "t = t0 @ nm @ ''=''"
    by (auto simp: suffix_def)
  let ?R = "render segs rest"
  have "regex_exec nm (t0 @ (nm @ ''=\"'' @ v @ ''\"'') @ ?R) = Some (t0, nm @ ''=\"'' @ v @ ''\"'', ?R)"
  proof (rule regex_exec_at)
    show "\<forall>k<length t0. match_here nm (drop k t0 @ (nm @ ''=\"'' @ v @ ''\"'') @ ?R) = None"
    proof (intro allI impI)
      fix k assume k: "k < length t0"
      have "CHR 0x22 \<notin> set (drop k t0 @ nm @ ''='')"
        using t t0 by (auto dest: in_set_dropD)
      from match_in_text [OF this nm, of v ?R]
      have "match_here nm ((drop k t0 @ nm @ ''='') @ CHR 0x22 # v @ CHR 0x22 # ?R) = None"
        using k by simp
      then show "match_here nm (drop k t0 @ (nm @ ''=\"'' @ v @ ''\"'') @ ?R) = None"
        by simp
    qed
    show "match_here nm ((nm @ ''=\"'' @ v @ ''\"'') @ ?R) = Some (nm @ ''=\"'' @ v @ ''\"'', ?R)"
      using v unfolding match_here_Some plain_value_def by auto
  qed
  with True t0 show ?thesis by simp
next
  case False
  let ?R = "render segs rest"
  have "\<forall>k<length (t @ CHR 0x22 # v @ [CHR 0x22]).
      match_here nm (drop k (t @ CHR 0x22 # v @ [CHR 0x22]) @ ?R) = None"
  proof (intro allI impI)
    fix k assume k: "k < length (t @ CHR 0x22 # v @ [CHR 0x22])"
    show "match_here nm (drop k (t @ CHR 0x22 # v @ [CHR 0x22]) @ ?R) = None"
    proof (cases "k < length t")
      case True
      have "CHR 0x22 \<notin> set (drop k t)"
        using t by (auto dest: in_set_dropD)
      moreover have "drop k t \<noteq> nm @ ''=''"
      proof
        assume "drop k t = nm @ ''=''"
        then have "t = take k t @ nm @ ''=''"
          by (metis append_take_drop_id)
        then have "suffix (nm @ ''='') t"
          unfolding suffix_def by blast
        with False show False by simp
      qed
      ultimately have "match_here nm (drop k t @ CHR 0x22 # v @ CHR 0x22 # ?R) = None"
        using match_in_text [OF _ nm, of "drop k t" v ?R] by blast
      with True show ?thesis by simp
    next
      case False
      note nk = this
      show ?thesis
      proof (cases "k = length t")
        case True
        with match_in_value(1) [OF v nm, of 0 ?R] show ?thesis by simp
      next
        case False
        define j where "j = k - length t - 1"
        have kj: "k = length t + 1 + j"
          using nk False by (simp add: j_def)
        have "j \<le> length v"
          using k kj by simp
        then have "drop k (t @ CHR 0x22 # v @ [CHR 0x22]) = drop j v @ [CHR 0x22]"
          unfolding kj by simp
        with match_in_value(2) [OF v nm, of j ?R] show ?thesis by simp
      qed
    qed
  qed
  from regex_exec_skip [OF this] False show ?thesis
    by simp
qed

lemma regular_Cons:
  "regular ((t, v) # segs) rest \<longleftrightarrow> CHR 0x22 \<notin> set t \<and> plain_value v \<and> regular segs rest"
  by (auto simp: regular_def)

lemma regular_Nil: "regular [] rest \<longleftrightarrow> CHR 0x22 \<notin> set rest"
  by (simp add: regular_def)

lemma has_attr_Cons:
  "has_attr nm ((t, v) # segs) \<longleftrightarrow> suffix (nm @ ''='') t \<or> has_attr nm segs"
  by (simp add: has_attr_def)

lemma has_attr_Nil: "\<not> has_attr nm []"
  by (simp add: has_attr_def)

lemma regex_test_render:
  "regular segs rest \<Longrightarrow> attr_name nm \<Longrightarrow> regex_test nm (render segs rest) \<longleftrightarrow> has_attr nm segs"
proof (induction segs)
  case Nil
  then show ?case
    by (simp add: regex_test_def regex_exec_quote_free regular_Nil has_attr_Nil)
next
  case (Cons tv segs)
  obtain t v where tv: "tv = (t, v)" by (cases tv)
  from Cons.prems have t: "CHR 0x22 \<notin> set t" and v: "plain_value v" and r: "regular segs rest"
    by (simp_all add: tv regular_Cons)
  have ih: "regex_exec nm (render segs rest) \<noteq> None \<longleftrightarrow> has_attr nm segs"
    using Cons.IH [OF r Cons.prems(2)] by (simp add: regex_test_def)
  show ?case
    unfolding tv regex_test_def regex_exec_render_Cons [OF t v Cons.prems(2)] has_attr_Cons
    using ih by (cases "regex_exec nm (render segs rest)") auto
qed

lemma replace_regex_render:
  assumes nm: "attr_name nm" and d: "CHR ''$'' \<notin> set (nm @ ''=\"'' @ w @ ''\"'')"
  shows "regular segs rest \<Longrightarrow>
    replace_regex nm (render segs rest) (nm @ ''=\"'' @ w @ ''\"'') = render (set_first nm w segs) rest"
proof (induction segs)
  case Nil
  then show ?case
    by (simp add: replace_regex_def regex_exec_quote_free regular_Nil)
next
  case (Cons tv segs)
  obtain t v where tv: "tv = (t, v)" by (cases tv)
  from Cons.prems have t: "CHR 0x22 \<notin> set t" and v: "plain_value v" and r: "regular segs rest"
    by (simp_all add: tv regular_Cons)
  note e = regex_exec_render_Cons [OF t v nm, of segs rest]
  show ?case
  proof (cases "suffix (nm @ ''='') t")
    case True
    then obtain t0 where t0: "t = t0 @ nm @ ''=''"
      by (auto simp: suffix_def)
    from True e have "regex_exec nm (render (tv # segs) rest)
        = Some (take (length t - length (nm @ ''='')) t, nm @ ''=\"'' @ v @ ''\"'', render segs rest)"
      by (simp add: tv)
    from replace_regex_at [OF this d] have "replace_regex nm (render (tv # segs) rest) (nm @ ''=\"'' @ w @ ''\"'')
        = take (length t - length (nm @ ''='')) t @ (nm @ ''=\"'' @ w @ ''\"'') @ render segs rest" .
    also have "take (length t - length (nm @ ''='')) t = t0"
      unfolding t0 by simp
    finally show ?thesis
      using True by (simp add: tv t0)
  next
    case False
    let ?P = "t @ CHR 0x22 # v @ [CHR 0x22]"
    from False e have x: "regex_exec nm (render (tv # segs) rest)
        = map_option (\<lambda>(b, m, r). (t @ CHR 0x22 # v @ CHR 0x22 # b, m, r))
            (regex_exec nm (render segs rest))"
      by (simp add: tv)
    define tmpl where "tmpl = nm @ ''=\"'' @ w @ ''\"''"
    have g: "get_substitution m pre post tmpl = tmpl" for m pre post
      unfolding tmpl_def by (rule get_substitution_plain [OF d])
    have "replace_regex nm (render (tv # segs) rest) tmpl
        = ?P @ replace_regex nm (render segs rest) tmpl"
      unfolding replace_regex_def x
      by (cases "regex_exec nm (render segs rest)") (auto simp: tv g)
    then have "replace_regex nm (render (tv # segs) rest) (nm @ ''=\"'' @ w @ ''\"'')
        = ?P @ replace_regex nm (render segs rest) (nm @ ''=\"'' @ w @ ''\"'')"
      unfolding tmpl_def .
    with Cons.IH [OF r] False show ?thesis
      by (simp add: tv)
  qed
qed

lemma replace_all_skip:
  assumes "regex_exec nm (P @ R) = map_option (\<lambda>(b, m, r). (P @ b, m, r)) (regex_exec nm R)"
  shows "replace_all_from nm tmpl seen (P @ R) = P @ replace_all_from nm tmpl (seen @ P) R"
  by (subst replace_all_from.simps, subst (2) replace_all_from.simps)
    (cases "regex_exec nm R"; auto simp: assms)

lemma replace_all_render:
  assumes d: "CHR ''$'' \<notin> set c"
  shows "regular segs rest \<Longrightarrow>
    replace_all_from ''fill'' (''fill=\"'' @ c @ ''\"'') seen (render segs rest)
      = render (set_all ''fill'' c segs) rest"
proof (induction segs arbitrary: seen)
  case Nil
  then show ?case
    by (subst replace_all_from.simps)
      (simp add: regex_exec_quote_free regular_Nil set_all_def)
next
  case (Cons tv segs)
  obtain t v where tv: "tv = (t, v)" by (cases tv)
  from Cons.prems have t: "CHR 0x22 \<notin> set t" and v: "plain_value v" and r: "regular segs rest"
    by (simp_all add: tv regular_Cons)
  have nm: "attr_name ''fill''"
    by (simp add: attr_name_def)
  have p: "CHR ''$'' \<notin> set (''fill=\"'' @ c @ ''\"'')"
    using d by simp
  note e = regex_exec_render_Cons [OF t v nm, of segs rest]
  note ih = Cons.IH [OF r]
  show ?case
  proof (cases "suffix ''fill='' t")
    case True
    then obtain t0 where t0: "t = t0 @ ''fill=''"
      by (auto simp: suffix_def)
    from True e have x: "regex_exec ''fill'' (render (tv # segs) rest)
        = Some (t0, ''fill=\"'' @ v @ ''\"'', render segs rest)"
      by (simp add: tv t0)
    have "replace_all_from ''fill'' (''fill=\"'' @ c @ ''\"'') seen (render (tv # segs) rest)
        = t0 @ (''fill=\"'' @ c @ ''\"'') @ render (set_all ''fill'' c segs) rest"
      by (subst replace_all_from.simps) (simp only: x option.case prod.case get_substitution_plain [OF p] ih)
    then show ?thesis
      using True by (simp add: tv t0 set_all_def)
  next
    case False
    from False e have "regex_exec ''fill'' ((t @ CHR 0x22 # v @ [CHR 0x22]) @ render segs rest)
        = map_option (\<lambda>(b, m, r). ((t @ CHR 0x22 # v @ [CHR 0x22]) @ b, m, r))
            (regex_exec ''fill'' (render segs rest))"
      by (simp add: tv)
    from replace_all_skip [OF this] ih False show ?thesis
      by (simp add: tv set_all_def)
  qed
qed

lemma includes_quote:
  assumes "CHR 0x22 \<notin> set p" and "p \<noteq> []"
  shows "includes_str (a @ CHR 0x22 # z) p \<longleftrightarrow> includes_str a p \<or> includes_str z p"
  using includes_barrier [of "[CHR 0x22]" p a z] assms
  by (cases p) (auto dest: list.set_sel(2))

lemma includes_subset: "includes_str v p \<Longrightarrow> set p \<subseteq> set v"
  by (auto simp: includes_str_iff)

lemma includes_render:
  assumes p: "CHR 0x22 \<notin> set p" "p \<noteq> []"
    and x: "CHR ''='' \<in> set p \<or> CHR ''<'' \<in> set p"
  shows "regular segs rest \<Longrightarrow> includes_str (render segs rest) p \<longleftrightarrow> has_text p segs rest"
proof (induction segs)
  case Nil
  then show ?case by (simp add: has_text_def)
next
  case (Cons tv segs)
  obtain t v where tv: "tv = (t, v)" by (cases tv)
  from Cons.prems have v: "plain_value v" and r: "regular segs rest"
    by (simp_all add: tv regular_Cons)
  have nv: "\<not> includes_str v p"
    using x v includes_subset [of v p] by (auto simp: plain_value_def)
  have "includes_str (t @ CHR 0x22 # (v @ CHR 0x22 # render segs rest)) p
      \<longleftrightarrow> includes_str t p \<or> includes_str (v @ CHR 0x22 # render segs rest) p"
    using p by (rule includes_quote)
  also have "includes_str (v @ CHR 0x22 # render segs rest) p
      \<longleftrightarrow> includes_str v p \<or> includes_str (render segs rest) p"
    using p by (rule includes_quote)
  finally show ?case
    using nv Cons.IH [OF r] by (auto simp: tv has_text_def)
qed

section \<open>Regular markup: injecting after the root tag\<close>

lemma split_first_Some_D: "split_first s pat = Some (a, b) \<Longrightarrow> s = a @ pat @ b"
proof (induction s arbitrary: a)
  case Nil
  then show ?case by (simp split: if_splits)
next
  case (Cons x s)
  show ?case
  proof (cases "prefix pat (x # s)")
    case True
    with Cons.prems show ?thesis by (auto simp: prefix_def)
  next
    case False
    with Cons.prems obtain a' where "split_first s pat = Some (a', b)" "a = x # a'"
      by auto
    with Cons.IH show ?thesis by simp
  qed
qed

lemma split_first_quote:
  assumes "CHR 0x22 \<notin> set pat" "pat \<noteq> []"
  shows "split_first (u @ CHR 0x22 # z) pat =
    (case split_first u pat of
       Some (a, b) \<Rightarrow> Some (a, b @ CHR 0x22 # z)
     | None \<Rightarrow> map_option (\<lambda>(a, b). (u @ CHR 0x22 # a, b)) (split_first z pat))"
proof (induction u)
  case Nil
  have "\<not> prefix pat (CHR 0x22 # z)"
    using assms by (cases pat) auto
  then show ?case
    using assms by simp
next
  case (Cons x u)
  have p: "prefix pat ((x # u) @ [CHR 0x22] @ z) \<longleftrightarrow> prefix pat (x # u)"
    by (rule prefix_barrier) (use assms in \<open>auto dest: list.set_sel(2)\<close>)
  show ?case
  proof (cases "prefix pat (x # u)")
    case True
    then have "length pat \<le> length (x # u)"
      by (rule prefix_length_le)
    then have "drop (length pat) ((x # u) @ CHR 0x22 # z) = drop (length pat) (x # u) @ CHR 0x22 # z"
      by (subst drop_append) simp
    with True p show ?thesis by simp
  next
    case False
    with p Cons.IH show ?thesis
      by (cases "split_first u pat"; cases "split_first z pat") auto
  qed
qed

lemma replace_str_quote:
  assumes "CHR 0x22 \<notin> set pat" "pat \<noteq> []" "CHR ''$'' \<notin> set tmpl"
  shows "replace_str (u @ CHR 0x22 # z) pat tmpl =
    (case split_first u pat of
       Some (a, b) \<Rightarrow> a @ tmpl @ b @ CHR 0x22 # z
     | None \<Rightarrow> u @ CHR 0x22 # replace_str z pat tmpl)"
  unfolding replace_str_def split_first_quote [OF assms(1,2)]
  by (cases "split_first u pat"; cases "split_first z pat")
    (auto simp: get_substitution_plain [OF assms(3)])

lemma render_append_rest: "render segs (r @ r') = render segs r @ r'"
  by (induction segs r rule: render.induct) auto

lemma render_append: "render (xs @ ys) rest = render xs (render ys rest)"
  by (induction xs rest rule: render.induct) auto

lemma render_glue: "ins \<noteq> [] \<Longrightarrow> render (glue p ins) r = p @ render ins r"
  by (cases ins) auto

lemma inject_render:
  assumes i: "ins \<noteq> []" and d: "CHR ''$'' \<notin> set (''<svg'' @ render ins [])"
  shows "regular segs rest \<Longrightarrow> inject ins segs rest = (s', r') \<Longrightarrow>
    replace_str (render segs rest) ''<svg'' (''<svg'' @ render ins []) = render s' r'"
proof (induction segs arbitrary: s' r')
  case Nil
  show ?case
  proof (cases "split_first rest ''<svg''")
    case None
    with Nil show ?thesis by (simp add: replace_str_def)
  next
    case (Some ab)
    obtain a b where ab: "ab = (a, b)" by (cases ab)
    define T where "T = ''<svg'' @ render ins []"
    have g: "get_substitution m p q T = T" for m p q
      unfolding T_def by (rule get_substitution_plain [OF d])
    from Some Nil.prems have "s' = glue (a @ ''<svg'') ins" "r' = b"
      by (simp_all add: ab)
    then have "render s' r' = a @ T @ b"
      using render_append_rest [of ins "[]" b] by (simp add: render_glue [OF i] T_def)
    moreover have "replace_str (render [] rest) ''<svg'' T = a @ T @ b"
      using Some by (simp add: replace_str_def ab g)
    ultimately show ?thesis
      unfolding T_def by simp
  qed
next
  case (Cons tv segs)
  obtain t v where tv: "tv = (t, v)" by (cases tv)
  from Cons.prems have v: "plain_value v" and r: "regular segs rest"
    by (simp_all add: tv regular_Cons)
  define T where "T = ''<svg'' @ render ins []"
  define R where "R = render segs rest"
  have dT: "CHR ''$'' \<notin> set T"
    unfolding T_def by (rule d)
  have q: "CHR 0x22 \<notin> set ''<svg''" "''<svg'' \<noteq> []"
    by simp_all
  have nv: "split_first v ''<svg'' = None"
    using v includes_subset [of v "''<svg''"] by (auto simp: split_first_None plain_value_def)
  have 1: "replace_str (t @ CHR 0x22 # (v @ CHR 0x22 # R)) ''<svg'' T =
      (case split_first t ''<svg'' of
         Some (a, b) \<Rightarrow> a @ T @ b @ CHR 0x22 # (v @ CHR 0x22 # R)
       | None \<Rightarrow> t @ CHR 0x22 # replace_str (v @ CHR 0x22 # R) ''<svg'' T)"
    using q dT by (rule replace_str_quote)
  have 2: "replace_str (v @ CHR 0x22 # R) ''<svg'' T = v @ CHR 0x22 # replace_str R ''<svg'' T"
    unfolding replace_str_quote [OF q dT] nv by simp
  show ?case
  proof (cases "split_first t ''<svg''")
    case None
    obtain s2 r2 where j: "inject ins segs rest = (s2, r2)"
      by (cases "inject ins segs rest")
    from Cons.IH [OF r j] have ih: "replace_str R ''<svg'' T = render s2 r2"
      unfolding R_def T_def .
    from None j Cons.prems(2) have "s' = (t, v) # s2" "r' = r2"
      by (simp_all add: tv)
    then have "render s' r' = t @ CHR 0x22 # v @ CHR 0x22 # render s2 r2"
      by simp
    moreover have "replace_str (t @ CHR 0x22 # (v @ CHR 0x22 # R)) ''<svg'' T
        = t @ CHR 0x22 # v @ CHR 0x22 # render s2 r2"
      unfolding 1 None 2 ih by simp
    ultimately show ?thesis
      unfolding T_def R_def tv by simp
  next
    case (Some ab)
    obtain a b where ab: "ab = (a, b)" by (cases ab)
    from Some Cons.prems(2) have "s' = glue (a @ ''<svg'') ins @ (b, v) # segs" "r' = rest"
      by (simp_all add: tv ab)
    then have "render s' r' = a @ T @ b @ CHR 0x22 # v @ CHR 0x22 # R"
      using render_append_rest [of ins "[]" "b @ CHR 0x22 # v @ CHR 0x22 # R"]
      by (simp add: render_append render_glue [OF i] T_def R_def)
    moreover have "replace_str (t @ CHR 0x22 # (v @ CHR 0x22 # R)) ''<svg'' T
        = a @ T @ b @ CHR 0x22 # v @ CHR 0x22 # R"
      unfolding 1 Some ab by simp
    ultimately show ?thesis
      unfolding T_def R_def tv by simp
  qed
qed

lemma suffix_svg:
  assumes "CHR ''v'' \<notin> set p" "p \<noteq> []" "hd p \<noteq> CHR ''g''"
  shows "suffix p (a @ ''<svg'' @ b) \<longleftrightarrow> suffix p b"
proof -
  have "set (tl (rev p)) \<subseteq> set p"
    using list.set_sel(2) [of "rev p"] assms by auto
  then have "prefix (rev p) ((rev b @ ''g'') @ ''vs<'' @ rev a) \<longleftrightarrow> prefix (rev p) (rev b @ ''g'')"
    by (intro prefix_barrier) (use assms in auto)
  then have "suffix p (a @ ''<svg'' @ b) \<longleftrightarrow> suffix p (CHR ''g'' # b)"
    by (simp add: suffix_to_prefix)
  also have "\<dots> \<longleftrightarrow> suffix p b"
    using assms by (cases p) (auto simp: suffix_Cons)
  finally show ?thesis .
qed

lemma suffix_attr:
  assumes "nm \<in> {''fill'', ''width'', ''height''}"
  shows "suffix (nm @ ''='') (a @ ''<svg'' @ b) \<longleftrightarrow> suffix (nm @ ''='') b"
  by (rule suffix_svg) (use assms in auto)

lemma is_attr_glue:
  "nm \<in> {''fill'', ''width'', ''height''} \<Longrightarrow>
   suffix (nm @ ''='') ((a @ ''<svg'') @ t) \<longleftrightarrow> suffix (nm @ ''='') t"
  using suffix_attr [of nm a t] by simp

lemma has_attr_glue:
  "nm \<in> {''fill'', ''width'', ''height''} \<Longrightarrow>
   has_attr nm (glue (a @ ''<svg'') ins) \<longleftrightarrow> has_attr nm ins"
proof (cases ins)
  case Nil
  then show ?thesis by simp
next
  case (Cons tv r)
  assume n: "nm \<in> {''fill'', ''width'', ''height''}"
  obtain t v where "tv = (t, v)" by (cases tv)
  with Cons show ?thesis
    by (simp only: glue.simps has_attr_Cons is_attr_glue [OF n])
qed

lemma set_first_id: "\<not> has_attr nm segs \<Longrightarrow> set_first nm w segs = segs"
  by (induction nm w segs rule: set_first.induct) (auto simp: has_attr_Cons)

lemma set_first_append:
  "set_first nm w (xs @ ys) =
     (if has_attr nm xs then set_first nm w xs @ ys else xs @ set_first nm w ys)"
  by (induction nm w xs rule: set_first.induct) (auto simp: has_attr_Cons has_attr_Nil)

lemma set_first_glue:
  "nm \<in> {''fill'', ''width'', ''height''} \<Longrightarrow>
   set_first nm w (glue (a @ ''<svg'') ins) = glue (a @ ''<svg'') (set_first nm w ins)"
proof (cases ins)
  case Nil
  then show ?thesis by simp
next
  case (Cons tv r)
  assume n: "nm \<in> {''fill'', ''width'', ''height''}"
  obtain t v where "tv = (t, v)" by (cases tv)
  with Cons show ?thesis
    by (simp only: glue.simps set_first.simps is_attr_glue [OF n] if_distrib [of "glue (a @ ''<svg'')"])
qed

lemma set_first_idem: "set_first nm w (set_first nm w segs) = set_first nm w segs"
  by (induction nm w segs rule: set_first.induct) auto

lemma not_two_attrs:
  assumes "nm \<in> {''fill'', ''width'', ''height''}" "nm' \<in> {''fill'', ''width'', ''height''}"
    and "nm \<noteq> nm'"
  shows "\<not> (suffix (nm @ ''='') t \<and> suffix (nm' @ ''='') t)"
proof
  assume "suffix (nm @ ''='') t \<and> suffix (nm' @ ''='') t"
  then have "suffix (nm @ ''='') (nm' @ ''='') \<or> suffix (nm' @ ''='') (nm @ ''='')"
    using suffix_same_cases by blast
  with assms show False
    by (auto simp: suffix_to_prefix)
qed

lemma set_first_commute:
  assumes "nm \<in> {''fill'', ''width'', ''height''}" "nm' \<in> {''fill'', ''width'', ''height''}"
    and "nm \<noteq> nm'"
  shows "set_first nm w (set_first nm' w' segs) = set_first nm' w' (set_first nm w segs)"
  using not_two_attrs [OF assms]
  by (induction nm w segs rule: set_first.induct) auto

lemma has_attr_set_first: "has_attr nm (set_first nm' w segs) \<longleftrightarrow> has_attr nm segs"
  by (induction nm' w segs rule: set_first.induct) (auto simp: has_attr_Cons has_attr_Nil)

lemma regular_set_first:
  "plain_value w \<Longrightarrow> regular segs rest \<Longrightarrow> regular (set_first nm w segs) rest"
  by (induction nm w segs rule: set_first.induct) (auto simp: regular_Cons)

lemma regular_set_all:
  "plain_value w \<Longrightarrow> regular segs rest \<Longrightarrow> regular (set_all nm w segs) rest"
  by (auto simp: regular_def set_all_def split: if_splits)

lemma has_text_Cons:
  "has_text p ((t, v) # segs) rest \<longleftrightarrow> includes_str t p \<or> has_text p segs rest"
  by (auto simp: has_text_def)

lemma has_text_set_first: "has_text p (set_first nm w segs) rest \<longleftrightarrow> has_text p segs rest"
  by (induction nm w segs rule: set_first.induct) (auto simp: has_text_Cons)

lemma has_text_set_all: "has_text p (set_all nm w segs) rest \<longleftrightarrow> has_text p segs rest"
  by (induction segs) (auto simp: has_text_def set_all_def split: if_splits)

lemma all_val_set_all: "all_val nm c (set_all nm c segs)"
  by (auto simp: all_val_def set_all_def split: if_splits)

lemma set_all_id: "all_val nm c segs \<Longrightarrow> set_all nm c segs = segs"
  unfolding set_all_def all_val_def by (rule map_idI) auto

lemma attr_values_Nil: "attr_values nm [] = []"
  by (simp add: attr_values_def)

lemma attr_values_Cons:
  "attr_values nm ((t, v) # segs)
     = (if suffix (nm @ ''='') t then v # attr_values nm segs else attr_values nm segs)"
  by (simp add: attr_values_def)

lemma attr_values_append: "attr_values nm (xs @ ys) = attr_values nm xs @ attr_values nm ys"
  by (simp add: attr_values_def)

lemma has_attr_values: "has_attr nm segs \<longleftrightarrow> attr_values nm segs \<noteq> []"
  by (induction segs) (auto simp: has_attr_def attr_values_def)

lemma all_val_values: "all_val nm c segs \<longleftrightarrow> (\<forall>x \<in> set (attr_values nm segs). x = c)"
  by (induction segs) (auto simp: all_val_def attr_values_def)

lemma attr_values_glue:
  "nm \<in> {''fill'', ''width'', ''height''} \<Longrightarrow>
   attr_values nm (glue (a @ ''<svg'') ins) = attr_values nm ins"
proof (cases ins)
  case Nil
  then show ?thesis by simp
next
  case (Cons tv r)
  assume n: "nm \<in> {''fill'', ''width'', ''height''}"
  obtain t v where "tv = (t, v)" by (cases tv)
  with Cons show ?thesis
    by (simp only: glue.simps attr_values_Cons is_attr_glue [OF n])
qed

lemma attr_values_set_all_same:
  "attr_values nm (set_all nm c segs) = map (\<lambda>_. c) (attr_values nm segs)"
  by (induction segs) (auto simp: attr_values_def set_all_def split: if_splits)

lemma attr_values_set_all_other:
  assumes "nm \<in> {''fill'', ''width'', ''height''}" "nm' \<in> {''fill'', ''width'', ''height''}"
    and "nm \<noteq> nm'"
  shows "attr_values nm (set_all nm' c segs) = attr_values nm segs"
  using not_two_attrs [OF assms]
  by (induction segs) (auto simp: attr_values_def set_all_def split: if_splits)

lemma attr_values_set_first_same:
  "attr_values nm (set_first nm w segs)
     = (case attr_values nm segs of [] \<Rightarrow> [] | x # xs \<Rightarrow> w # xs)"
  by (induction nm w segs rule: set_first.induct) (auto simp: attr_values_Cons attr_values_Nil)

lemma attr_values_set_first_other:
  assumes "nm \<in> {''fill'', ''width'', ''height''}" "nm' \<in> {''fill'', ''width'', ''height''}"
    and "nm \<noteq> nm'"
  shows "attr_values nm (set_first nm' w segs) = attr_values nm segs"
  using not_two_attrs [OF assms]
  by (induction nm' w segs rule: set_first.induct) (auto simp: attr_values_Cons attr_values_Nil)

lemma has_text_Nil: "has_text p [] rest \<longleftrightarrow> includes_str rest p"
  by (simp add: has_text_def)

lemma has_text_append:
  "p \<noteq> [] \<Longrightarrow> has_text p (xs @ ys) r \<longleftrightarrow> has_text p xs [] \<or> has_text p ys r"
  by (auto simp: has_text_def)

lemma has_attr_has_text: "has_attr nm segs \<Longrightarrow> has_text (nm @ ''='') segs rest"
proof -
  assume "has_attr nm segs"
  then obtain t v where m: "(t, v) \<in> set segs" and s: "suffix (nm @ ''='') t"
    by (auto simp: has_attr_def)
  from s obtain z where "t = z @ (nm @ ''='') @ []"
    by (auto simp: suffix_def)
  then have "includes_str t (nm @ ''='')"
    unfolding includes_str_iff by blast
  with m show ?thesis
    by (auto simp: has_text_def)
qed

lemma regular_rest: "regular s r \<longleftrightarrow> regular s [] \<and> CHR 0x22 \<notin> set r"
  by (auto simp: regular_def)

lemma regular_append: "regular (xs @ ys) r \<longleftrightarrow> regular xs [] \<and> regular ys r"
  by (auto simp: regular_def)

lemma regular_glue:
  "ins \<noteq> [] \<Longrightarrow> regular (glue p ins) r \<longleftrightarrow> CHR 0x22 \<notin> set p \<and> regular ins r"
proof (cases ins)
  case Nil
  assume "ins \<noteq> []"
  with Nil show ?thesis by simp
next
  case (Cons tv r')
  obtain t v where "tv = (t, v)" by (cases tv)
  with Cons show ?thesis
    by (auto simp: regular_Cons)
qed

lemma inject_Nil_cases:
  assumes "inject ins [] rest = (s', r')"
  obtains "\<not> includes_str rest ''<svg''" "s' = []" "r' = rest"
  | a b where "rest = a @ ''<svg'' @ b" "s' = glue (a @ ''<svg'') ins" "r' = b"
proof (cases "split_first rest ''<svg''")
  case None
  then have "\<not> includes_str rest ''<svg''"
    by (simp add: split_first_None)
  moreover from None assms have "s' = []" "r' = rest"
    by simp_all
  ultimately show ?thesis
    by (rule that(1))
next
  case (Some ab)
  obtain a b where ab: "ab = (a, b)" by (cases ab)
  from Some have "rest = a @ ''<svg'' @ b"
    unfolding ab by (rule split_first_Some_D)
  moreover from Some assms have "s' = glue (a @ ''<svg'') ins" "r' = b"
    by (simp_all add: ab)
  ultimately show ?thesis
    by (rule that(2))
qed

lemma inject_Cons_cases:
  assumes "inject ins ((t, v) # segs) rest = (s', r')"
  obtains a b where "t = a @ ''<svg'' @ b" "s' = glue (a @ ''<svg'') ins @ (b, v) # segs" "r' = rest"
  | s2 where "\<not> includes_str t ''<svg''" "inject ins segs rest = (s2, r')" "s' = (t, v) # s2"
proof (cases "split_first t ''<svg''")
  case None
  then have "\<not> includes_str t ''<svg''"
    by (simp add: split_first_None)
  moreover obtain s2 r2 where j: "inject ins segs rest = (s2, r2)"
    by (cases "inject ins segs rest")
  moreover from None assms j have "s' = (t, v) # s2" "r2 = r'"
    by simp_all
  ultimately show ?thesis
    using that(2) by simp
next
  case (Some ab)
  obtain a b where ab: "ab = (a, b)" by (cases ab)
  from Some have "t = a @ ''<svg'' @ b"
    unfolding ab by (rule split_first_Some_D)
  moreover from Some assms have "s' = glue (a @ ''<svg'') ins @ (b, v) # segs" "r' = rest"
    by (simp_all add: ab)
  ultimately show ?thesis
    by (rule that(1))
qed

lemma inject_absent: "\<not> has_text ''<svg'' segs rest \<Longrightarrow> inject ins segs rest = (segs, rest)"
proof (induction segs)
  case Nil
  then show ?case
    by (simp add: has_text_Nil split_first_None [symmetric])
next
  case (Cons tv segs)
  obtain t v where tv: "tv = (t, v)" by (cases tv)
  from Cons.prems have "\<not> includes_str t ''<svg''" "\<not> has_text ''<svg'' segs rest"
    by (simp_all add: tv has_text_Cons)
  with Cons.IH show ?case
    by (simp add: tv split_first_None [symmetric])
qed

lemma inject_regular:
  assumes i: "ins \<noteq> []" "regular ins []"
  shows "regular segs rest \<Longrightarrow> inject ins segs rest = (s', r') \<Longrightarrow> regular s' r'"
proof (induction segs arbitrary: s')
  case Nil
  from Nil.prems(2) show ?case
  proof (cases rule: inject_Nil_cases)
    case 1
    with Nil.prems(1) show ?thesis by simp
  next
    case (2 a b)
    from Nil.prems(1) have "CHR 0x22 \<notin> set a" "CHR 0x22 \<notin> set b"
      unfolding 2(1) by (simp_all add: regular_Nil)
    with i show ?thesis
      unfolding 2(2,3) by (simp add: regular_glue regular_rest [of ins b])
  qed
next
  case (Cons tv segs)
  obtain t v where tv: "tv = (t, v)" by (cases tv)
  from Cons.prems(1) have t: "CHR 0x22 \<notin> set t" and v: "plain_value v" and r: "regular segs rest"
    by (simp_all add: tv regular_Cons)
  from Cons.prems(2) [unfolded tv] show ?case
  proof (cases rule: inject_Cons_cases)
    case (1 a b)
    from t have "CHR 0x22 \<notin> set a" "CHR 0x22 \<notin> set b"
      unfolding 1(1) by simp_all
    with i v r show ?thesis
      unfolding 1(2,3) by (simp add: regular_append regular_glue regular_Cons)
  next
    case (2 s2)
    from Cons.IH [OF r 2(2)] t v show ?thesis
      unfolding 2(3) by (simp add: regular_Cons)
  qed
qed

lemma inject_values_other:
  assumes n: "nm \<in> {''fill'', ''width'', ''height''}" and i: "attr_values nm ins = []"
  shows "inject ins segs rest = (s', r') \<Longrightarrow> attr_values nm s' = attr_values nm segs"
proof (induction segs arbitrary: s')
  case Nil
  from Nil.prems show ?case
  proof (cases rule: inject_Nil_cases)
    case 1
    then show ?thesis by simp
  next
    case (2 a b)
    show ?thesis
      unfolding 2(2) attr_values_glue [OF n] i by (simp add: attr_values_Nil)
  qed
next
  case (Cons tv segs)
  obtain t v where tv: "tv = (t, v)" by (cases tv)
  from Cons.prems [unfolded tv] show ?case
  proof (cases rule: inject_Cons_cases)
    case (1 a b)
    have "suffix (nm @ ''='') t \<longleftrightarrow> suffix (nm @ ''='') b"
      unfolding 1(1) using n by (rule suffix_attr)
    then show ?thesis
      unfolding 1(2) tv attr_values_append attr_values_glue [OF n] i
      by (simp add: attr_values_Cons)
  next
    case (2 s2)
    from Cons.IH [OF 2(2)] show ?thesis
      unfolding 2(3) tv by (simp add: attr_values_Cons)
  qed
qed

lemma inject_values_new:
  assumes n: "nm \<in> {''fill'', ''width'', ''height''}"
  shows "\<not> has_attr nm segs \<Longrightarrow> has_text ''<svg'' segs rest \<Longrightarrow>
    inject ins segs rest = (s', r') \<Longrightarrow> attr_values nm s' = attr_values nm ins"
proof (induction segs arbitrary: s')
  case Nil
  from Nil.prems(3) show ?case
  proof (cases rule: inject_Nil_cases)
    case 1
    with Nil.prems(2) show ?thesis by (simp add: has_text_Nil)
  next
    case (2 a b)
    show ?thesis
      unfolding 2(2) by (rule attr_values_glue [OF n])
  qed
next
  case (Cons tv segs)
  obtain t v where tv: "tv = (t, v)" by (cases tv)
  from Cons.prems(1) have nt: "\<not> suffix (nm @ ''='') t" and ns: "\<not> has_attr nm segs"
    by (simp_all add: tv has_attr_Cons)
  from Cons.prems(3) [unfolded tv] show ?case
  proof (cases rule: inject_Cons_cases)
    case (1 a b)
    have "suffix (nm @ ''='') t \<longleftrightarrow> suffix (nm @ ''='') b"
      unfolding 1(1) using n by (rule suffix_attr)
    with nt have "\<not> suffix (nm @ ''='') b"
      by simp
    moreover from ns have "attr_values nm segs = []"
      by (simp add: has_attr_values)
    ultimately show ?thesis
      unfolding 1(2) attr_values_append attr_values_glue [OF n]
      by (simp add: attr_values_Cons)
  next
    case (2 s2)
    from Cons.prems(2) 2(1) have "has_text ''<svg'' segs rest"
      by (simp add: tv has_text_Cons)
    from Cons.IH [OF ns this 2(2)] nt show ?thesis
      unfolding 2(3) by (simp add: attr_values_Cons)
  qed
qed

lemma includes_glue:
  assumes "ins = (t1, v1) # ins'" and "includes_str (a @ ''<svg'' @ t1) p"
  shows "has_text p (glue (a @ ''<svg'') ins @ post) r"
  using assms by (simp add: has_text_def)

lemma inject_text_new:
  assumes i: "ins = (t1, v1) # ins'" and p: "includes_str (''<svg'' @ t1) p"
  shows "has_text ''<svg'' segs rest \<Longrightarrow> inject ins segs rest = (s', r') \<Longrightarrow> has_text p s' r'"
proof (induction segs arbitrary: s')
  case Nil
  have g: "includes_str (a @ ''<svg'' @ t1) p" for a
    using p by (rule includes_str_append_right)
  from Nil.prems(2) show ?case
  proof (cases rule: inject_Nil_cases)
    case 1
    with Nil.prems(1) show ?thesis by (simp add: has_text_Nil)
  next
    case (2 a b)
    from includes_glue [OF i g, of a "[]" b] show ?thesis
      unfolding 2(2,3) by simp
  qed
next
  case (Cons tv segs)
  obtain t v where tv: "tv = (t, v)" by (cases tv)
  have g: "includes_str (a @ ''<svg'' @ t1) p" for a
    using p by (rule includes_str_append_right)
  from Cons.prems(2) [unfolded tv] show ?case
  proof (cases rule: inject_Cons_cases)
    case (1 a b)
    from includes_glue [OF i g, of a "(b, v) # segs" rest] show ?thesis
      unfolding 1(2,3) .
  next
    case (2 s2)
    from Cons.prems(1) 2(1) have "has_text ''<svg'' segs rest"
      by (simp add: tv has_text_Cons)
    from Cons.IH [OF this 2(2)] show ?thesis
      unfolding 2(3) by (simp add: has_text_Cons)
  qed
qed

lemma includes_fill_svg:
  "includes_str (a @ ''<svg'' @ b) ''fill='' \<longleftrightarrow> includes_str a ''fill='' \<or> includes_str b ''fill=''"
  by (rule includes_barrier) simp_all

lemma inject_keeps_fill:
  assumes i: "ins = (t1, v1) # ins'"
  shows "has_text ''fill='' segs rest \<Longrightarrow> inject ins segs rest = (s', r') \<Longrightarrow>
    has_text ''fill='' s' r'"
proof (induction segs arbitrary: s')
  case Nil
  from Nil.prems(2) show ?case
  proof (cases rule: inject_Nil_cases)
    case 1
    with Nil.prems(1) show ?thesis by simp
  next
    case (2 a b)
    from Nil.prems(1) have "includes_str a ''fill='' \<or> includes_str b ''fill=''"
      unfolding 2(1) has_text_Nil includes_fill_svg .
    then show ?thesis
    proof
      assume "includes_str a ''fill=''"
      then have "includes_str (a @ ''<svg'' @ t1) ''fill=''"
        by (rule includes_str_append_left)
      from includes_glue [OF i this, of "[]" b] show ?thesis
        unfolding 2(2,3) by simp
    next
      assume "includes_str b ''fill=''"
      then show ?thesis
        unfolding 2(3) by (simp add: has_text_def)
    qed
  qed
next
  case (Cons tv segs)
  obtain t v where tv: "tv = (t, v)" by (cases tv)
  from Cons.prems(1) have c: "includes_str t ''fill='' \<or> has_text ''fill='' segs rest"
    by (simp add: tv has_text_Cons)
  from Cons.prems(2) [unfolded tv] show ?case
  proof (cases rule: inject_Cons_cases)
    case (1 a b)
    from c have "includes_str a ''fill='' \<or> includes_str b ''fill='' \<or> has_text ''fill='' segs rest"
      unfolding 1(1) includes_fill_svg by blast
    then show ?thesis
    proof (elim disjE)
      assume "includes_str a ''fill=''"
      then have "includes_str (a @ ''<svg'' @ t1) ''fill=''"
        by (rule includes_str_append_left)
      from includes_glue [OF i this, of "(b, v) # segs" rest] show ?thesis
        unfolding 1(2,3) .
    next
      assume "includes_str b ''fill=''"
      then have "has_text ''fill='' ((b, v) # segs) rest"
        by (simp add: has_text_Cons)
      then show ?thesis
        unfolding 1(2,3) by (simp add: has_text_append)
    next
      assume "has_text ''fill='' segs rest"
      then have "has_text ''fill='' ((b, v) # segs) rest"
        by (simp add: has_text_Cons)
      then show ?thesis
        unfolding 1(2,3) by (simp add: has_text_append)
    qed
  next
    case (2 s2)
    from c show ?thesis
    proof
      assume "includes_str t ''fill=''"
      then show ?thesis
        unfolding 2(3) by (simp add: has_text_Cons)
    next
      assume "has_text ''fill='' segs rest"
      from Cons.IH [OF this 2(2)] show ?thesis
        unfolding 2(3) by (simp add: has_text_Cons)
    qed
  qed
qed

lemma inject_set_first:
  assumes n: "nm \<in> {''fill'', ''width'', ''height''}"
    and h: "has_attr nm ins" and f: "set_first nm w ins = ins"
  shows "\<not> has_attr nm segs \<Longrightarrow> inject ins segs rest = (s', r') \<Longrightarrow> set_first nm w s' = s'"
proof (induction segs arbitrary: s')
  case Nil
  from Nil.prems(2) show ?case
  proof (cases rule: inject_Nil_cases)
    case 1
    then show ?thesis by simp
  next
    case (2 a b)
    show ?thesis
      unfolding 2(2) set_first_glue [OF n] f ..
  qed
next
  case (Cons tv segs)
  obtain t v where tv: "tv = (t, v)" by (cases tv)
  from Cons.prems(1) have nt: "\<not> suffix (nm @ ''='') t" and ns: "\<not> has_attr nm segs"
    by (simp_all add: tv has_attr_Cons)
  from Cons.prems(2) [unfolded tv] show ?case
  proof (cases rule: inject_Cons_cases)
    case (1 a b)
    have "has_attr nm (glue (a @ ''<svg'') ins)"
      unfolding has_attr_glue [OF n] by (rule h)
    then show ?thesis
      unfolding 1(2) set_first_append set_first_glue [OF n] f by simp
  next
    case (2 s2)
    from Cons.IH [OF ns 2(2)] nt show ?thesis
      unfolding 2(3) by simp
  qed
qed

section \<open>Regular markup: the transformer on texts and values\<close>

lemma show_nat_plain_value: "plain_value (show_nat n)"
  by (simp add: plain_value_def show_nat_plain)

lemma includes_render_fill:
  "regular segs rest \<Longrightarrow> includes_str (render segs rest) ''fill='' \<longleftrightarrow> has_text ''fill='' segs rest"
  by (rule includes_render) simp_all


lemma fill_ins:
  "attr_values ''fill'' [('' fill='', c)] = [c]"
  "attr_values ''width'' [('' fill='', c)] = []"
  "attr_values ''height'' [('' fill='', c)] = []"
  "includes_str (''<svg'' @ '' fill='') ''fill=''"
  "includes_str (''<svg'' @ '' fill='') ''<svg''"
  by (simp_all add: attr_values_Cons attr_values_Nil suffix_to_prefix)

lemma dims_ins:
  "attr_values ''fill'' [('' width='', w), ('' height='', w)] = []"
  "attr_values ''width'' [('' width='', w), ('' height='', w)] = [w]"
  "attr_values ''height'' [('' width='', w), ('' height='', w)] = [w]"
  "set_first ''width'' w [('' width='', w), ('' height='', w)] = [('' width='', w), ('' height='', w)]"
  "set_first ''height'' w [('' width='', w), ('' height='', w)] = [('' width='', w), ('' height='', w)]"
  by (simp_all add: attr_values_Cons attr_values_Nil suffix_to_prefix)

lemma handle_fill_render:
  assumes r: "regular segs rest" and d: "CHR ''$'' \<notin> set c"
  shows "handle_fill c (render segs rest) = (case fill_attrs c segs rest of (s, r) \<Rightarrow> render s r)"
proof (cases "has_text ''fill='' segs rest")
  case True
  then have i: "includes_str (render segs rest) ''fill=''"
    by (simp add: includes_render_fill [OF r])
  have "replace_regex_all FILL_REGEX (render segs rest) (''fill=\"'' @ c @ ''\"'')
      = render (set_all ''fill'' c segs) rest"
    unfolding replace_regex_all_def FILL_REGEX_def by (rule replace_all_render [OF d r])
  with i True show ?thesis
    by (simp add: handle_fill_def fill_attrs_def)
next
  case False
  then have i: "\<not> includes_str (render segs rest) ''fill=''"
    by (simp add: includes_render_fill [OF r])
  obtain s' r' where j: "inject [('' fill='', c)] segs rest = (s', r')"
    by (cases "inject [('' fill='', c)] segs rest")
  have "replace_str (render segs rest) ''<svg'' (''<svg'' @ render [('' fill='', c)] []) = render s' r'"
    by (rule inject_render [OF _ _ r j]) (use d in simp_all)
  then have "replace_str (render segs rest) ''<svg'' (''<svg fill=\"'' @ c @ ''\"'') = render s' r'"
    by simp
  with i False j show ?thesis
    by (simp add: handle_fill_def fill_attrs_def)
qed

lemma fill_attrs_regular:
  assumes "regular segs rest" "plain_value c" "fill_attrs c segs rest = (s, r)"
  shows "regular s r"
proof (cases "has_text ''fill='' segs rest")
  case True
  with assms(3) have "s = set_all ''fill'' c segs" "r = rest"
    by (simp_all add: fill_attrs_def)
  with assms(1,2) show ?thesis
    by (simp add: regular_set_all)
next
  case False
  with assms(3) have j: "inject [('' fill='', c)] segs rest = (s, r)"
    by (simp add: fill_attrs_def)
  have "regular [('' fill='', c)] []"
    using assms(2) by (simp add: regular_def)
  from inject_regular [OF _ this assms(1) j] show ?thesis
    by simp
qed

lemma handle_dimensions_render:
  assumes r: "regular segs rest"
  shows "handle_dimensions n (render segs rest)
    = (case dimension_attrs n segs rest of (s, r) \<Rightarrow> render s r)"
proof -
  define w where "w = show_nat n"
  have pw: "plain_value w"
    unfolding w_def by (rule show_nat_plain_value)
  have dw: "CHR ''$'' \<notin> set w"
    unfolding w_def by (rule show_nat_plain)
  have tw: "regex_test WIDTH_REGEX (render segs rest) \<longleftrightarrow> has_attr ''width'' segs"
    unfolding WIDTH_REGEX_def by (rule regex_test_render [OF r]) (simp add: attr_name_def)
  have th: "regex_test HEIGHT_REGEX (render segs rest) \<longleftrightarrow> has_attr ''height'' segs"
    unfolding HEIGHT_REGEX_def by (rule regex_test_render [OF r]) (simp add: attr_name_def)
  have rw: "replace_regex WIDTH_REGEX (render segs rest) (''width=\"'' @ w @ ''\"'')
      = render (set_first ''width'' w segs) rest"
    using replace_regex_render [of "''width''" w segs rest] r dw
    by (simp add: WIDTH_REGEX_def attr_name_def)
  have rh: "replace_regex HEIGHT_REGEX (render s rest) (''height=\"'' @ w @ ''\"'')
      = render (set_first ''height'' w s) rest" if "regular s rest" for s
    using replace_regex_render [of "''height''" w s rest] that dw
    by (simp add: HEIGHT_REGEX_def attr_name_def)
  have r1: "regular (set_first ''width'' w segs) rest"
    using pw r by (rule regular_set_first)
  show ?thesis
  proof (cases "has_attr ''width'' segs \<or> has_attr ''height'' segs")
    case True
    have a: "(if has_attr ''width'' segs
              then replace_regex WIDTH_REGEX (render segs rest) (''width=\"'' @ w @ ''\"'')
              else render segs rest) = render (set_first ''width'' w segs) rest"
      using rw by (simp add: set_first_id)
    have b: "(if has_attr ''height'' segs
              then replace_regex HEIGHT_REGEX (render (set_first ''width'' w segs) rest)
                     (''height=\"'' @ w @ ''\"'')
              else render (set_first ''width'' w segs) rest)
        = render (set_first ''height'' w (set_first ''width'' w segs)) rest"
      using rh [OF r1] by (simp add: set_first_id has_attr_set_first)
    have "handle_dimensions n (render segs rest)
        = render (set_first ''height'' w (set_first ''width'' w segs)) rest"
      using True unfolding handle_dimensions_def Let_def tw th w_def [symmetric] a b
      by (simp only: if_False de_Morgan_disj not_not split: if_splits; blast)
    with True show ?thesis
      by (simp add: dimension_attrs_def w_def)
  next
    case False
    obtain s' r' where j: "inject [('' width='', w), ('' height='', w)] segs rest = (s', r')"
      by (cases "inject [('' width='', w), ('' height='', w)] segs rest")
    have "replace_str (render segs rest) ''<svg''
        (''<svg'' @ render [('' width='', w), ('' height='', w)] []) = render s' r'"
      by (rule inject_render [OF _ _ r j]) (use dw in simp_all)
    then have "replace_str (render segs rest) ''<svg''
        (''<svg width=\"'' @ w @ ''\" height=\"'' @ w @ ''\"'') = render s' r'"
      by simp
    with False j show ?thesis
      unfolding handle_dimensions_def Let_def tw th w_def [symmetric] dimension_attrs_def
      by simp
  qed
qed

lemma dimension_attrs_regular:
  assumes "regular segs rest" "dimension_attrs n segs rest = (s, r)"
  shows "regular s r"
proof (cases "has_attr ''width'' segs \<or> has_attr ''height'' segs")
  case True
  with assms(2) have "s = set_first ''height'' (show_nat n) (set_first ''width'' (show_nat n) segs)"
    "r = rest"
    by (simp_all add: dimension_attrs_def)
  with assms(1) show ?thesis
    by (simp add: regular_set_first show_nat_plain_value)
next
  case False
  with assms(2) have j: "inject [('' width='', show_nat n), ('' height='', show_nat n)] segs rest = (s, r)"
    by (simp add: dimension_attrs_def)
  have "regular [('' width='', show_nat n), ('' height='', show_nat n)] []"
    by (simp add: regular_def show_nat_plain_value)
  from inject_regular [OF _ this assms(1) j] show ?thesis
    by simp
qed

lemma svg_render:
  assumes "regular segs rest" "plain_value c" "CHR ''$'' \<notin> set c"
  shows "svg (render segs rest) c n = (case svg_attrs c n segs rest of (s, r) \<Rightarrow> render s r)"
proof -
  obtain s1 r1 where f: "fill_attrs c segs rest = (s1, r1)"
    by (cases "fill_attrs c segs rest")
  have "regular s1 r1"
    using assms(1,2) f by (rule fill_attrs_regular)
  from handle_dimensions_render [OF this, of n] handle_fill_render [OF assms(1,3)]
  show ?thesis
    by (simp add: svg_def svg_attrs_def f)
qed

lemma svg_attrs_regular:
  assumes "regular segs rest" "plain_value c" "svg_attrs c n segs rest = (s, r)"
  shows "regular s r"
proof -
  obtain s1 r1 where f: "fill_attrs c segs rest = (s1, r1)"
    by (cases "fill_attrs c segs rest")
  have "regular s1 r1"
    using assms(1,2) f by (rule fill_attrs_regular)
  moreover from assms(3) have "dimension_attrs n s1 r1 = (s, r)"
    by (simp add: svg_attrs_def f)
  ultimately show ?thesis
    by (rule dimension_attrs_regular)
qed

lemma known_names: "''fill'' \<in> {''fill'', ''width'', ''height''}"
  "''width'' \<in> {''fill'', ''width'', ''height''}"
  "''height'' \<in> {''fill'', ''width'', ''height''}"
  by simp_all

lemma no_fill_text_no_attr: "\<not> has_text ''fill='' segs rest \<Longrightarrow> \<not> has_attr ''fill'' segs"
  using has_attr_has_text [of "''fill''" segs rest] by auto

lemma fill_attrs_values:
  assumes "fill_attrs c segs rest = (s, r)"
  shows "attr_values ''fill'' s =
     (if has_text ''fill='' segs rest then map (\<lambda>_. c) (attr_values ''fill'' segs)
      else if has_text ''<svg'' segs rest then [c] else [])"
    and "attr_values ''width'' s = attr_values ''width'' segs"
    and "attr_values ''height'' s = attr_values ''height'' segs"
    and "has_text ''<svg'' s r \<longleftrightarrow> has_text ''<svg'' segs rest"
    and "fill_settled c s r"
proof -
  have "attr_values ''fill'' s =
     (if has_text ''fill='' segs rest then map (\<lambda>_. c) (attr_values ''fill'' segs)
      else if has_text ''<svg'' segs rest then [c] else [])
    \<and> attr_values ''width'' s = attr_values ''width'' segs
    \<and> attr_values ''height'' s = attr_values ''height'' segs
    \<and> (has_text ''<svg'' s r \<longleftrightarrow> has_text ''<svg'' segs rest)
    \<and> fill_settled c s r"
  proof (cases "has_text ''fill='' segs rest")
    case True
    with assms have e: "s = set_all ''fill'' c segs" "r = rest"
      by (simp_all add: fill_attrs_def)
    have "attr_values ''width'' s = attr_values ''width'' segs"
      unfolding e by (rule attr_values_set_all_other) simp_all
    moreover have "attr_values ''height'' s = attr_values ''height'' segs"
      unfolding e by (rule attr_values_set_all_other) simp_all
    moreover have "fill_settled c s r"
      unfolding e fill_settled_def using True by (simp add: has_text_set_all all_val_set_all)
    ultimately show ?thesis
      using True unfolding e by (simp add: attr_values_set_all_same has_text_set_all)
  next
    case False
    with assms have j: "inject [('' fill='', c)] segs rest = (s, r)"
      by (simp add: fill_attrs_def)
    note nf = no_fill_text_no_attr [OF False]
    have w: "attr_values ''width'' s = attr_values ''width'' segs"
      using known_names(2) fill_ins(2) j by (rule inject_values_other)
    have h: "attr_values ''height'' s = attr_values ''height'' segs"
      using known_names(3) fill_ins(3) j by (rule inject_values_other)
    show ?thesis
    proof (cases "has_text ''<svg'' segs rest")
      case True
      have v: "attr_values ''fill'' s = [c]"
        using inject_values_new [OF known_names(1) nf True j] by (simp add: fill_ins)
      have t: "has_text ''fill='' s r"
        using refl fill_ins(4) True j by (rule inject_text_new)
      have g: "has_text ''<svg'' s r"
        using refl fill_ins(5) True j by (rule inject_text_new)
      from v t have "fill_settled c s r"
        by (simp add: fill_settled_def all_val_values)
      with v w h g True False show ?thesis
        by simp
    next
      case n: False
      from inject_absent [OF n, of "[('' fill='', c)]"] j have e: "s = segs" "r = rest"
        by simp_all
      from nf have "attr_values ''fill'' segs = []"
        by (simp add: has_attr_values)
      with n False show ?thesis
        unfolding e by (simp add: fill_settled_def)
    qed
  qed
  then show "attr_values ''fill'' s =
     (if has_text ''fill='' segs rest then map (\<lambda>_. c) (attr_values ''fill'' segs)
      else if has_text ''<svg'' segs rest then [c] else [])"
    and "attr_values ''width'' s = attr_values ''width'' segs"
    and "attr_values ''height'' s = attr_values ''height'' segs"
    and "has_text ''<svg'' s r \<longleftrightarrow> has_text ''<svg'' segs rest"
    and "fill_settled c s r"
    by blast+
qed

lemma fill_attrs_fix: "fill_settled c s r \<Longrightarrow> fill_attrs c s r = (s, r)"
  by (auto simp: fill_settled_def fill_attrs_def set_all_id inject_absent)

lemma dimension_attrs_fix: "dimensions_settled (show_nat n) s r \<Longrightarrow> dimension_attrs n s r = (s, r)"
  by (auto simp: dimensions_settled_def dimension_attrs_def inject_absent)

lemma dimension_attrs_values:
  assumes "dimension_attrs n segs rest = (s, r)"
  shows "attr_values ''fill'' s = attr_values ''fill'' segs"
    and "attr_values ''width'' s =
      (case attr_values ''width'' segs of
         x # xs \<Rightarrow> show_nat n # xs
       | [] \<Rightarrow> if has_attr ''height'' segs \<or> \<not> has_text ''<svg'' segs rest then []
               else [show_nat n])"
    and "attr_values ''height'' s =
      (case attr_values ''height'' segs of
         x # xs \<Rightarrow> show_nat n # xs
       | [] \<Rightarrow> if has_attr ''width'' segs \<or> \<not> has_text ''<svg'' segs rest then []
               else [show_nat n])"
    and "dimensions_settled (show_nat n) s r"
    and "fill_settled c segs rest \<Longrightarrow> fill_settled c s r"
proof -
  define w where "w = show_nat n"
  have "attr_values ''fill'' s = attr_values ''fill'' segs
    \<and> attr_values ''width'' s =
      (case attr_values ''width'' segs of
         x # xs \<Rightarrow> w # xs
       | [] \<Rightarrow> if has_attr ''height'' segs \<or> \<not> has_text ''<svg'' segs rest then [] else [w])
    \<and> attr_values ''height'' s =
      (case attr_values ''height'' segs of
         x # xs \<Rightarrow> w # xs
       | [] \<Rightarrow> if has_attr ''width'' segs \<or> \<not> has_text ''<svg'' segs rest then [] else [w])
    \<and> dimensions_settled w s r
    \<and> (fill_settled c segs rest \<longrightarrow> fill_settled c s r)"
  proof (cases "has_attr ''width'' segs \<or> has_attr ''height'' segs")
    case True
    with assms have e: "s = set_first ''height'' w (set_first ''width'' w segs)" "r = rest"
      by (simp_all add: dimension_attrs_def w_def)
    have f: "attr_values ''fill'' s = attr_values ''fill'' segs"
      unfolding e
      by (simp add: attr_values_set_first_other [of "''fill''" "''height''"]
          attr_values_set_first_other [of "''fill''" "''width''"])
    have a: "attr_values ''width'' s
        = (case attr_values ''width'' segs of [] \<Rightarrow> [] | x # xs \<Rightarrow> w # xs)"
      unfolding e
      by (simp add: attr_values_set_first_other [of "''width''" "''height''"]
          attr_values_set_first_same)
    have b: "attr_values ''height'' s
        = (case attr_values ''height'' segs of [] \<Rightarrow> [] | x # xs \<Rightarrow> w # xs)"
      unfolding e
      by (simp add: attr_values_set_first_other [of "''height''" "''width''"]
          attr_values_set_first_same)
    have c1: "set_first ''width'' w s = s"
      unfolding e
      by (simp add: set_first_commute [of "''width''" "''height''"] set_first_idem)
    have c2: "set_first ''height'' w s = s"
      unfolding e by (simp add: set_first_idem)
    have d: "dimensions_settled w s r"
      unfolding dimensions_settled_def using True c1 c2
      by (simp add: e has_attr_set_first)
    have g: "fill_settled c s r" if "fill_settled c segs rest"
      using that f unfolding fill_settled_def all_val_values
      by (simp add: e has_text_set_first)
    from True have "attr_values ''width'' segs = [] \<Longrightarrow> has_attr ''height'' segs"
      and "attr_values ''height'' segs = [] \<Longrightarrow> has_attr ''width'' segs"
      by (auto simp: has_attr_values)
    with f a b d g show ?thesis
      by (auto split: list.splits)
  next
    case False
    let ?D = "[('' width='', w), ('' height='', w)]"
    from False assms have j: "inject ?D segs rest = (s, r)"
      by (simp add: dimension_attrs_def w_def)
    from False have nw: "\<not> has_attr ''width'' segs" and nh: "\<not> has_attr ''height'' segs"
      by simp_all
    then have z: "attr_values ''width'' segs = []" "attr_values ''height'' segs = []"
      by (simp_all add: has_attr_values)
    have f: "attr_values ''fill'' s = attr_values ''fill'' segs"
      using known_names(1) dims_ins(1) j by (rule inject_values_other)
    show ?thesis
    proof (cases "has_text ''<svg'' segs rest")
      case True
      have a: "attr_values ''width'' s = [w]"
        using inject_values_new [OF known_names(2) nw True j] by (simp add: dims_ins)
      have b: "attr_values ''height'' s = [w]"
        using inject_values_new [OF known_names(3) nh True j] by (simp add: dims_ins)
      have c1: "set_first ''width'' w s = s"
        using known_names(2) _ dims_ins(4) nw j
        by (rule inject_set_first) (simp add: has_attr_values dims_ins)
      have c2: "set_first ''height'' w s = s"
        using known_names(3) _ dims_ins(5) nh j
        by (rule inject_set_first) (simp add: has_attr_values dims_ins)
      have d: "dimensions_settled w s r"
        unfolding dimensions_settled_def using a c1 c2 by (simp add: has_attr_values)
      have g: "fill_settled c s r" if "fill_settled c segs rest"
      proof -
        from that True have t: "has_text ''fill='' segs rest" and v: "all_val ''fill'' c segs"
          by (auto simp: fill_settled_def)
        have "has_text ''fill='' s r"
          using refl t j by (rule inject_keeps_fill)
        with v f show ?thesis
          by (simp add: fill_settled_def all_val_values)
      qed
      from f a b d g z True nw nh show ?thesis
        by simp
    next
      case n: False
      from inject_absent [OF n, of ?D] j have e: "s = segs" "r = rest"
        by simp_all
      from n nw nh z show ?thesis
        unfolding e by (simp add: dimensions_settled_def)
    qed
  qed
  then show "attr_values ''fill'' s = attr_values ''fill'' segs"
    and "attr_values ''width'' s =
      (case attr_values ''width'' segs of
         x # xs \<Rightarrow> show_nat n # xs
       | [] \<Rightarrow> if has_attr ''height'' segs \<or> \<not> has_text ''<svg'' segs rest then []
               else [show_nat n])"
    and "attr_values ''height'' s =
      (case attr_values ''height'' segs of
         x # xs \<Rightarrow> show_nat n # xs
       | [] \<Rightarrow> if has_attr ''width'' segs \<or> \<not> has_text ''<svg'' segs rest then []
               else [show_nat n])"
    and "dimensions_settled (show_nat n) s r"
    and "fill_settled c segs rest \<Longrightarrow> fill_settled c s r"
    unfolding w_def by blast+
qed

lemma svg_attrs_fix:
  assumes "svg_attrs c n segs rest = (s, r)"
  shows "svg_attrs c n s r = (s, r)"
proof -
  obtain s1 r1 where f: "fill_attrs c segs rest = (s1, r1)"
    by (cases "fill_attrs c segs rest")
  from assms have d: "dimension_attrs n s1 r1 = (s, r)"
    by (simp add: svg_attrs_def f)
  have "fill_settled c s1 r1"
    using f by (rule fill_attrs_values(5))
  with d have "fill_settled c s r"
    by (rule dimension_attrs_values(5))
  then have "fill_attrs c s r = (s, r)"
    by (rule fill_attrs_fix)
  moreover have "dimension_attrs n s r = (s, r)"
    using dimension_attrs_values(4) [OF d] by (rule dimension_attrs_fix)
  ultimately show ?thesis
    by (simp add: svg_attrs_def)
qed

lemma svg_twice:
  assumes "regular segs rest" "plain_value c" "CHR ''$'' \<notin> set c"
  shows "svg (svg (render segs rest) c n) c n = svg (render segs rest) c n"
proof -
  obtain s r where a: "svg_attrs c n segs rest = (s, r)"
    by (cases "svg_attrs c n segs rest")
  have e: "svg (render segs rest) c n = render s r"
    using svg_render [OF assms, of n] by (simp add: a)
  have "regular s r"
    using assms(1,2) a by (rule svg_attrs_regular)
  from svg_render [OF this assms(2,3), of n] show ?thesis
    unfolding e by (simp add: svg_attrs_fix [OF a])
qed

section \<open>The transformer on regular markup: width and height\<close>




section \<open>The transformer on regular markup: fill\<close>




section \<open>The transformer on regular markup: applying it twice\<close>

text \<open>
  Claim C8, as amended. For regular markup, a colour that is a plain value without
  \<^verbatim>\<open>$\<close>, and every size, the transform applied twice with the same colour and size
  gives the same string as applied once.
\<close>

theorem fill_handling_idempotent:
  assumes "regular segs rest" and "plain_value c" and "CHR ''$'' \<notin> set c"
  shows "svg (svg (render segs rest) c n) c n = svg (render segs rest) c n"
  using assms by (rule svg_twice)

text \<open>
  An instance on which the first application changes the markup: both fill values are
  replaced and a width and a height are injected.
\<close>

theorem fill_handling_idempotent_witness:
  "regular fills_markup ''/></svg>'' \<and> plain_value ''#ff0000'' \<and> CHR ''$'' \<notin> set ''#ff0000''
   \<and> svg (svg (render fills_markup ''/></svg>'') ''#ff0000'' 24) ''#ff0000'' 24
       = svg (render fills_markup ''/></svg>'') ''#ff0000'' 24
   \<and> svg (render fills_markup ''/></svg>'') ''#ff0000'' 24 \<noteq> render fills_markup ''/></svg>''"
proof -
  have h: "regular fills_markup ''/></svg>''" "plain_value ''#ff0000''"
    "CHR ''$'' \<notin> set ''#ff0000''"
    by (simp_all add: fills_markup_def regular_def plain_value_def)
  note t = fill_handling_idempotent [OF h, of 24]
  have "svg (render fills_markup ''/></svg>'') ''#ff0000'' 24 \<noteq> render fills_markup ''/></svg>''"
    by code_simp
  with t h show ?thesis
    by simp
qed

text \<open>
  Claim C8 as stated fails. In \<^verbatim>\<open><svg width="fill=">\<close> the only \<^verbatim>\<open>fill=\<close> is inside
  the width value, which is not a plain value. The first application replaces the width
  value (and so removes \<^verbatim>\<open>fill=\<close>); the second one finds no \<^verbatim>\<open>fill=\<close> any more and
  injects a fill attribute. With the colour \<^verbatim>\<open>$&\<close>, which is expanded to the replaced
  match, every application makes the fill value longer.
\<close>

theorem transform_not_idempotent:
  "svg fill_in_width_svg ''#000000'' 64 = ''<svg width=\"64\">''
   \<and> svg (svg fill_in_width_svg ''#000000'' 64) ''#000000'' 64 = ''<svg fill=\"#000000\" width=\"64\">''
   \<and> svg (svg fill_in_width_svg ''#000000'' 64) ''#000000'' 64 \<noteq> svg fill_in_width_svg ''#000000'' 64
   \<and> svg ''<svg fill=\"none\">'' ''$&'' 24 = ''<svg width=\"24\" height=\"24\" fill=\"fill=\"none\"\">''
   \<and> svg (svg ''<svg fill=\"none\">'' ''$&'' 24) ''$&'' 24
       = ''<svg width=\"24\" height=\"24\" fill=\"fill=\"fill=\"\"none\"\">''"
  by code_simp

end
